theory Spec2Isabelle
  imports Main "HOL-Library.Word"
begin

unbundle bit_operations_syntax

section \<open>Files, counters and exceptions\<close>

text \<open>
  The program works on binary files, through Python file objects, and counts its block
  accesses in two global variables. The model keeps the file system as a map from file
  names to byte contents, next to the two counters. A file object is represented by the
  name of the file it was opened on: every access of the program seeks first, so the
  position of a file object carries no information from one call to the next.

  Python integers are unbounded and are modelled by \<^typ>\<open>int\<close>; positions and sizes
  are never negative in the program and are modelled by \<^typ>\<open>nat\<close>. Files may have
  any length: what a medium can hold, and every other failure of the medium, is left out.
\<close>

type_synonym byte = "8 word"

datatype error = FileNotFoundError | OverflowError | ValueError

record state =
  files :: "string \<Rightarrow> byte list option"
  reads :: nat
  writes :: nat

text \<open>
  A computation takes the state and returns the new state with either the exception it
  raised or its value. The globals keep what was done to them before a raise.
\<close>

type_synonym 'a io = "state \<Rightarrow> (error + 'a) \<times> state"

definition return :: "'a \<Rightarrow> 'a io" where
  "return x st = (Inr x, st)"

definition raise :: "error \<Rightarrow> 'a io" where
  "raise e st = (Inl e, st)"

definition bind :: "'a io \<Rightarrow> ('a \<Rightarrow> 'b io) \<Rightarrow> 'b io" where
  "bind m f st = (case m st of (Inl e, st') \<Rightarrow> (Inl e, st') | (Inr x, st') \<Rightarrow> f x st')"

text \<open>\<^verbatim>\<open>for i in <range>\<close> with one local variable carried from one round to the next.\<close>

primrec for_each :: "nat list \<Rightarrow> (nat \<Rightarrow> 'a \<Rightarrow> 'a io) \<Rightarrow> 'a \<Rightarrow> 'a io" where
  "for_each [] body acc = return acc"
| "for_each (i # rest) body acc = bind (body i acc) (for_each rest body)"

subsection \<open>What Python and the operating system provide\<close>

text \<open>
  The bytes of an open file. A file object only exists for a file that exists, so the
  second case is never reached through one.
\<close>

definition content :: "state \<Rightarrow> string \<Rightarrow> byte list" where
  "content st file = (case files st file of Some bs \<Rightarrow> bs | None \<Rightarrow> [])"

text \<open>\<^verbatim>\<open>open(name, "rb")\<close>: the file must exist.\<close>

definition open_rb :: "string \<Rightarrow> string io" where
  "open_rb name st = (if files st name = None then raise FileNotFoundError st else return name st)"

text \<open>\<^verbatim>\<open>open(name, "wb")\<close> and \<^verbatim>\<open>open(name, "wb+")\<close>: the file is created, or emptied if it exists.\<close>

definition open_wb :: "string \<Rightarrow> string io" where
  "open_wb name st = return name (st\<lparr>files := (files st)(name \<mapsto> [])\<rparr>)"

text \<open>
  \<^verbatim>\<open>file.seek(off)\<close> raises ValueError for an offset that does not fit the offset type
  of the platform, which has 63 bits and a sign. For every file that a platform holds,
  \<open>seekable off bs\<close> is \<open>off < 2 ^ 63\<close>. The files of the model may have any
  length, as the specification has carry propagation unbounded and the store always
  extended. No platform holds a file of \<open>2 ^ 63\<close> bytes, so no run of the program
  says what a seek within such a file does; the offsets up to its end (where
  \<open>get_file_size\<close> seeks to) are taken to be valid.
\<close>

definition OFFSET_LIMIT :: nat where
  "OFFSET_LIMIT = 2 ^ 63"

definition seekable :: "nat \<Rightarrow> byte list \<Rightarrow> bool" where
  "seekable off bs \<longleftrightarrow> off < OFFSET_LIMIT \<or> off \<le> length bs"

text \<open>\<^verbatim>\<open>file.seek(off); file.read(n)\<close>: at most \<open>n\<close> bytes, fewer at the end of the file.\<close>

definition file_read :: "nat \<Rightarrow> nat \<Rightarrow> byte list \<Rightarrow> byte list" where
  "file_read off n bs = take n (drop off bs)"

text \<open>
  \<^verbatim>\<open>file.seek(off); file.write(data)\<close>: the bytes from \<open>off\<close> on are overwritten and
  the file grows as needed. Where \<open>off\<close> lies beyond the end, the gap reads as zero bytes
  afterwards (the POSIX rule).
\<close>

definition file_write :: "nat \<Rightarrow> byte list \<Rightarrow> byte list \<Rightarrow> byte list" where
  "file_write off data bs =
     take off bs @ replicate (off - length bs) 0 @ data @ drop (off + length data) bs"

text \<open>\<^verbatim>\<open>int.from_bytes(block, "little")\<close>.\<close>

primrec from_bytes :: "byte list \<Rightarrow> int" where
  "from_bytes [] = 0"
| "from_bytes (b # bs) = uint b + 256 * from_bytes bs"

text \<open>
  \<^verbatim>\<open>value.to_bytes(n, "little")\<close>: OverflowError for a negative value and for one that
  does not fit \<open>n\<close> bytes.
\<close>

definition to_bytes :: "int \<Rightarrow> nat \<Rightarrow> error + byte list" where
  "to_bytes v n =
     (if v < 0 \<or> 2 ^ (8 * n) \<le> v then Inl OverflowError
      else Inr (map (\<lambda>k. word_of_int (drop_bit (8 * k) v)) [0..<n]))"

section \<open>The program\<close>

definition CHUNK_SIZE :: nat where
  "CHUNK_SIZE = 1"

definition BLOCK_MASK :: int where
  "BLOCK_MASK = push_bit (CHUNK_SIZE * 8) 1 - 1"

definition read_block :: "string \<Rightarrow> nat \<Rightarrow> int io" where
  "read_block file pos st =
     (let st1 = st\<lparr>reads := reads st + 1\<rparr>
      in if seekable (pos * CHUNK_SIZE) (content st1 file) then
           (let block = file_read (pos * CHUNK_SIZE) CHUNK_SIZE (content st1 file)
            in return (if block \<noteq> [] then from_bytes block else 0) st1)
         else raise ValueError st1)"

text \<open>
  In \<open>write_block\<close> the seek is not looked at: a write at an offset beyond the offset
  type would need a medium of that size.
\<close>

definition write_block :: "string \<Rightarrow> nat \<Rightarrow> int \<Rightarrow> unit io" where
  "write_block file pos v st =
     (let st1 = st\<lparr>writes := writes st + 1\<rparr>
      in case to_bytes v CHUNK_SIZE of
           Inl e \<Rightarrow> raise e st1
         | Inr data \<Rightarrow>
             return ()
               (st1\<lparr>files := (files st1)(file \<mapsto>
                      file_write (pos * CHUNK_SIZE) data (content st1 file))\<rparr>))"

definition get_file_size :: "string \<Rightarrow> nat io" where
  "get_file_size file st = return (length (content st file) div CHUNK_SIZE) st"

text \<open>The body of the inner loop of \<open>square\<close>; \<open>carry\<close> is the variable it updates.\<close>

definition square_inner :: "string \<Rightarrow> string \<Rightarrow> nat \<Rightarrow> int \<Rightarrow> nat \<Rightarrow> int \<Rightarrow> int io" where
  "square_inner infile outfile i block_i j carry =
     bind (if i \<noteq> j then bind (read_block infile j) (\<lambda>b. return (2 * b))
           else return block_i) (\<lambda>block_j.
     bind (read_block outfile (i + j)) (\<lambda>existing.
     let block_prod = block_i * block_j + carry + existing;
         product = block_prod AND BLOCK_MASK;
         carry' = drop_bit (CHUNK_SIZE * 8) block_prod
     in bind (write_block outfile (i + j) product) (\<lambda>_. return carry')))"

text \<open>The \<^verbatim>\<open>while carry > 0\<close> loop of \<open>square\<close>.\<close>

function propagate_carry :: "string \<Rightarrow> nat \<Rightarrow> int \<Rightarrow> unit io" where
  "propagate_carry outfile k carry st =
     (if carry > 0 then
        (case read_block outfile k st of
           (Inl e, st1) \<Rightarrow> (Inl e, st1)
         | (Inr existing, st1) \<Rightarrow>
             (let new_value = existing + carry;
                  carry' = drop_bit (CHUNK_SIZE * 8) new_value;
                  new_value' = new_value AND BLOCK_MASK
              in case write_block outfile k new_value' st1 of
                   (Inl e, st2) \<Rightarrow> (Inl e, st2)
                 | (Inr _, st2) \<Rightarrow> propagate_carry outfile (k + 1) carry' st2))
      else return () st)"
  by pat_completeness auto

termination propagate_carry
proof (relation "measure (\<lambda>(outfile, k, carry, st). length (content st outfile) - k + nat carry)")
  show "wf (measure (\<lambda>(outfile, k, carry, st). length (content st outfile) - k + nat carry))"
    by simp
next
  fix outfile k carry st and x :: "error + int" and y x2 xa xb xc
    and xd :: "error + unit" and ya x2a
  assume carry: "0 < carry"
    and rd: "(x, y) = read_block outfile k st" "x = Inr x2"
    and xa: "xa = x2 + carry"
    and xb: "xb = drop_bit (CHUNK_SIZE * 8) xa"
    and xc: "xc = xa AND BLOCK_MASK"
    and wr: "(xd, ya) = write_block outfile k xc y" "xd = Inr x2a"
  let ?bs = "content st outfile"
  have y: "content y outfile = ?bs"
    using rd by (simp add: read_block_def return_def raise_def content_def Let_def split: if_splits)
  have x2: "x2 = (if k < length ?bs then uint (?bs ! k) else 0)"
    using rd by (auto simp add: read_block_def return_def raise_def content_def Let_def file_read_def
        CHUNK_SIZE_def take_Suc_conv_app_nth hd_drop_conv_nth split: option.splits if_splits)
  have mask: "xc = xa mod 256"
  proof -
    have "(255::int) = mask 8" by (simp add: mask_eq_exp_minus_1)
    then have "xa AND 255 = take_bit 8 xa" by (simp only: take_bit_eq_mask)
    then show ?thesis by (simp add: xc BLOCK_MASK_def CHUNK_SIZE_def take_bit_eq_mod)
  qed
  have "0 \<le> xc" "xc < 256" using mask by simp_all
  then have ya: "length (content ya outfile) = max (length ?bs) (k + 1)"
    using wr y by (auto simp add: write_block_def to_bytes_def CHUNK_SIZE_def return_def
        raise_def content_def Let_def file_write_def split: if_splits)
  have xb': "xb = xa div 256"
    by (simp add: xb CHUNK_SIZE_def drop_bit_eq_div)
  have "uint (?bs ! k) < 256" using uint_bounded [of "?bs ! k"] by simp
  then have "length (content ya outfile) - (k + 1) + nat xb < length ?bs - k + nat carry"
    using carry x2 xa xb' ya by (auto simp add: max_def)
  then show "((outfile, k + 1, xb, ya), outfile, k, carry, st)
       \<in> measure (\<lambda>(outfile, k, carry, st). length (content st outfile) - k + nat carry)"
    by simp
qed

declare propagate_carry.simps [simp del]

text \<open>One round of the outer loop of \<open>square\<close>.\<close>

definition square_outer :: "string \<Rightarrow> string \<Rightarrow> nat \<Rightarrow> nat \<Rightarrow> unit io" where
  "square_outer infile outfile sz i =
     bind (read_block infile i) (\<lambda>block_i.
     bind (for_each [i..<sz] (square_inner infile outfile i block_i) 0) (\<lambda>carry.
     propagate_carry outfile (i + sz) carry))"

definition square :: "string \<Rightarrow> string \<Rightarrow> unit io" where
  "square input_filename output_filename =
     bind (open_rb input_filename) (\<lambda>infile.
     bind (open_wb output_filename) (\<lambda>outfile.
     bind (get_file_size infile) (\<lambda>sz.
     for_each [0..<sz] (\<lambda>i _. square_outer infile outfile sz i) ())))"

subsection \<open>The rounds of the carry loop\<close>

text \<open>
  The number of rounds that the \<^verbatim>\<open>while carry > 0\<close> loop makes from a state. The
  function follows \<open>propagate_carry\<close> and counts one for every round it enters.
\<close>

function propagate_rounds :: "string \<Rightarrow> nat \<Rightarrow> int \<Rightarrow> state \<Rightarrow> nat" where
  "propagate_rounds outfile k carry st =
     (if carry > 0 then
        (case read_block outfile k st of
           (Inl e, st1) \<Rightarrow> 1
         | (Inr existing, st1) \<Rightarrow>
             (let new_value = existing + carry;
                  carry' = drop_bit (CHUNK_SIZE * 8) new_value;
                  new_value' = new_value AND BLOCK_MASK
              in case write_block outfile k new_value' st1 of
                   (Inl e, st2) \<Rightarrow> 1
                 | (Inr _, st2) \<Rightarrow> 1 + propagate_rounds outfile (k + 1) carry' st2))
      else 0)"
  by pat_completeness auto

termination propagate_rounds
proof (relation "measure (\<lambda>(outfile, k, carry, st). length (content st outfile) - k + nat carry)")
  show "wf (measure (\<lambda>(outfile, k, carry, st). length (content st outfile) - k + nat carry))"
    by simp
next
  fix outfile k carry st and x :: "error + int" and y x2 xa xb xc
    and xd :: "error + unit" and ya x2a
  assume carry: "0 < carry"
    and rd: "(x, y) = read_block outfile k st" "x = Inr x2"
    and xa: "xa = x2 + carry"
    and xb: "xb = drop_bit (CHUNK_SIZE * 8) xa"
    and xc: "xc = xa AND BLOCK_MASK"
    and wr: "(xd, ya) = write_block outfile k xc y" "xd = Inr x2a"
  let ?bs = "content st outfile"
  have y: "content y outfile = ?bs"
    using rd by (simp add: read_block_def return_def raise_def content_def Let_def split: if_splits)
  have x2: "x2 = (if k < length ?bs then uint (?bs ! k) else 0)"
    using rd by (auto simp add: read_block_def return_def raise_def content_def Let_def file_read_def
        CHUNK_SIZE_def take_Suc_conv_app_nth hd_drop_conv_nth split: option.splits if_splits)
  have mask: "xc = xa mod 256"
  proof -
    have "(255::int) = mask 8" by (simp add: mask_eq_exp_minus_1)
    then have "xa AND 255 = take_bit 8 xa" by (simp only: take_bit_eq_mask)
    then show ?thesis by (simp add: xc BLOCK_MASK_def CHUNK_SIZE_def take_bit_eq_mod)
  qed
  have "0 \<le> xc" "xc < 256" using mask by simp_all
  then have ya: "length (content ya outfile) = max (length ?bs) (k + 1)"
    using wr y by (auto simp add: write_block_def to_bytes_def CHUNK_SIZE_def return_def
        raise_def content_def Let_def file_write_def split: if_splits)
  have xb': "xb = xa div 256"
    by (simp add: xb CHUNK_SIZE_def drop_bit_eq_div)
  have "uint (?bs ! k) < 256" using uint_bounded [of "?bs ! k"] by simp
  then have "length (content ya outfile) - (k + 1) + nat xb < length ?bs - k + nat carry"
    using carry x2 xa xb' ya by (auto simp add: max_def)
  then show "((outfile, k + 1, xb, ya), outfile, k, carry, st)
       \<in> measure (\<lambda>(outfile, k, carry, st). length (content st outfile) - k + nat carry)"
    by simp
qed

declare propagate_rounds.simps [simp del]

text \<open>
  The rounds of the carry loop in one round of an outer loop, where \<open>before\<close> is what
  that round does before the carry loop and \<open>k\<close> the index the carry loop starts at.
\<close>

definition rounds_after :: "int io \<Rightarrow> string \<Rightarrow> nat \<Rightarrow> state \<Rightarrow> nat" where
  "rounds_after before outfile k st =
     (case before st of
        (Inl e, st1) \<Rightarrow> 0
      | (Inr carry, st1) \<Rightarrow> propagate_rounds outfile k carry st1)"

text \<open>
  The sum of \<open>count i\<close> over the rounds \<open>i\<close> of a loop with the body \<open>body\<close>, each
  taken in the state in which its round starts.
\<close>

primrec rounds_of_loop ::
    "nat list \<Rightarrow> (nat \<Rightarrow> state \<Rightarrow> nat) \<Rightarrow> (nat \<Rightarrow> unit io) \<Rightarrow> state \<Rightarrow> nat" where
  "rounds_of_loop [] count body st = 0"
| "rounds_of_loop (i # rest) count body st =
     count i st +
     (case body i st of
        (Inl e, st') \<Rightarrow> 0
      | (Inr _, st') \<Rightarrow> rounds_of_loop rest count body st')"

text \<open>The rounds of the carry loop in one call of \<open>square\<close>, over all rounds of its outer loop.\<close>

definition carry_rounds :: "string \<Rightarrow> string \<Rightarrow> state \<Rightarrow> nat" where
  "carry_rounds input_filename output_filename st =
     (case bind (open_rb input_filename) (\<lambda>infile.
           bind (open_wb output_filename) (\<lambda>outfile.
           bind (get_file_size infile) (\<lambda>sz. return (infile, outfile, sz)))) st of
        (Inl e, st1) \<Rightarrow> 0
      | (Inr (infile, outfile, sz), st1) \<Rightarrow>
          rounds_of_loop [0..<sz]
            (\<lambda>i. rounds_after
               (bind (read_block infile i) (\<lambda>block_i.
                for_each [i..<sz] (square_inner infile outfile i block_i) 0))
               outfile (i + sz))
            (square_outer infile outfile sz) st1)"

subsection \<open>Decoding and encoding\<close>

definition file_to_num :: "string \<Rightarrow> int io" where
  "file_to_num filename =
     bind (open_rb filename) (\<lambda>f.
     bind (get_file_size f) (\<lambda>sz.
     for_each [0..<sz]
       (\<lambda>i res. bind (read_block f i) (\<lambda>b. return (res + push_bit (CHUNK_SIZE * 8 * i) b))) 0))"

text \<open>
  \<^verbatim>\<open>f.write(data)\<close> in \<open>num_to_file\<close>: the file object was opened on an emptied file and
  is only written to, one block after the other, so each write lands at the end.
\<close>

definition file_append :: "string \<Rightarrow> byte list \<Rightarrow> unit io" where
  "file_append file data st = return () (st\<lparr>files := (files st)(file \<mapsto> content st file @ data)\<rparr>)"

text \<open>
  The \<^verbatim>\<open>while n\<close> loop of \<open>num_to_file\<close>. It does not end for a negative \<open>n\<close>
  (the shift keeps the sign), so its result is optional: \<open>None\<close> is a run without end.
\<close>

partial_function (option) num_to_file_loop ::
    "string \<Rightarrow> int \<Rightarrow> state \<Rightarrow> ((error + unit) \<times> state) option" where
  "num_to_file_loop f n st =
     (if n \<noteq> 0 then
        (case to_bytes (n AND BLOCK_MASK) CHUNK_SIZE of
           Inl e \<Rightarrow> Some (Inl e, st)
         | Inr data \<Rightarrow>
             (case file_append f data st of
                (Inl e, st1) \<Rightarrow> Some (Inl e, st1)
              | (Inr _, st1) \<Rightarrow> num_to_file_loop f (drop_bit (CHUNK_SIZE * 8) n) st1))
      else Some (Inr (), st))"

declare num_to_file_loop.simps [code]

definition num_to_file :: "int \<Rightarrow> string \<Rightarrow> state \<Rightarrow> ((error + unit) \<times> state) option" where
  "num_to_file n filename st =
     (case open_wb filename st of
        (Inl e, st1) \<Rightarrow> Some (Inl e, st1)
      | (Inr f, st1) \<Rightarrow> num_to_file_loop f n st1)"

subsection \<open>The driving loop\<close>

text \<open>\<^verbatim>\<open>os.replace(src, dst)\<close>: \<open>dst\<close> becomes the file \<open>src\<close> was, and \<open>src\<close> is gone.\<close>

definition os_replace :: "string \<Rightarrow> string \<Rightarrow> unit io" where
  "os_replace src dst st =
     (case files st src of
        None \<Rightarrow> raise FileNotFoundError st
      | Some bs \<Rightarrow> return () (st\<lparr>files := (files st)(src := None, dst \<mapsto> bs)\<rparr>))"

text \<open>
  One round of the loop at the end of the script; \<open>printed\<close> collects the numbers the
  rounds print.
\<close>

definition driving_round :: "nat \<Rightarrow> int list \<Rightarrow> int list io" where
  "driving_round i printed =
     bind (square ''num.bin'' ''result.bin'') (\<lambda>_.
     bind (os_replace ''result.bin'' ''num.bin'') (\<lambda>_.
     bind (file_to_num ''num.bin'') (\<lambda>v.
     return (printed @ [v]))))"

definition driving_loop :: "state \<Rightarrow> ((error + int list) \<times> state) option" where
  "driving_loop st =
     (case num_to_file 3 ''num.bin'' st of
        None \<Rightarrow> None
      | Some (Inl e, st1) \<Rightarrow> Some (Inl e, st1)
      | Some (Inr _, st1) \<Rightarrow> Some (for_each [0..<6] driving_round [] st1))"

section \<open>The full schoolbook variant of the specification\<close>

text \<open>
  The specification's cross-check: the doubling removed and the inner index running over
  the full range, from 0 to \<open>size - 1\<close>, for every \<open>i\<close>. Everything else is as in
  \<open>square\<close>.
\<close>

definition naive_inner :: "string \<Rightarrow> string \<Rightarrow> nat \<Rightarrow> int \<Rightarrow> nat \<Rightarrow> int \<Rightarrow> int io" where
  "naive_inner infile outfile i block_i j carry =
     bind (if i \<noteq> j then read_block infile j else return block_i) (\<lambda>block_j.
     bind (read_block outfile (i + j)) (\<lambda>existing.
     let block_prod = block_i * block_j + carry + existing;
         product = block_prod AND BLOCK_MASK;
         carry' = drop_bit (CHUNK_SIZE * 8) block_prod
     in bind (write_block outfile (i + j) product) (\<lambda>_. return carry')))"

definition naive_outer :: "string \<Rightarrow> string \<Rightarrow> nat \<Rightarrow> nat \<Rightarrow> unit io" where
  "naive_outer infile outfile sz i =
     bind (read_block infile i) (\<lambda>block_i.
     bind (for_each [0..<sz] (naive_inner infile outfile i block_i) 0) (\<lambda>carry.
     propagate_carry outfile (i + sz) carry))"

definition square_naive :: "string \<Rightarrow> string \<Rightarrow> unit io" where
  "square_naive input_filename output_filename =
     bind (open_rb input_filename) (\<lambda>infile.
     bind (open_wb output_filename) (\<lambda>outfile.
     bind (get_file_size infile) (\<lambda>sz.
     for_each [0..<sz] (\<lambda>i _. naive_outer infile outfile sz i) ())))"

section \<open>Notions used in the proofs\<close>

text \<open>Block \<open>k\<close> of a file as a read returns it: zero from the end of the file on.\<close>

definition blk :: "byte list \<Rightarrow> nat \<Rightarrow> int" where
  "blk bs k = (if k < length bs then uint (bs ! k) else 0)"

text \<open>
  What a run that only writes to the file \<open>out\<close> may change: no other file, and
  \<open>out\<close> is neither removed nor shortened.
\<close>

definition frame :: "string \<Rightarrow> state \<Rightarrow> state \<Rightarrow> bool" where
  "frame out st st' \<longleftrightarrow>
     (\<forall>f. f \<noteq> out \<longrightarrow> files st' f = files st f) \<and>
     (files st out \<noteq> None \<longrightarrow> files st' out \<noteq> None) \<and>
     length (content st out) \<le> length (content st' out)"

text \<open>
  The state after reading block \<open>k\<close> of \<open>out\<close>, adding \<open>x\<close> to it and writing the
  low byte of the sum back.
\<close>

definition accumulated :: "string \<Rightarrow> nat \<Rightarrow> int \<Rightarrow> state \<Rightarrow> state" where
  "accumulated out k x st =
     st\<lparr>reads := reads st + 1, writes := writes st + 1,
        files := (files st)(out \<mapsto>
          file_write k [word_of_int ((x + blk (content st out) k) mod 256)] (content st out))\<rparr>"

text \<open>
  The triangular and the full variant differ in the factor \<open>d\<close> of the off-diagonal
  blocks and in the lower end \<open>lo\<close> of the inner range. The proofs go through these
  three generalisations, of which both variants are instances.
\<close>

definition inner_gen :: "int \<Rightarrow> string \<Rightarrow> string \<Rightarrow> nat \<Rightarrow> int \<Rightarrow> nat \<Rightarrow> int \<Rightarrow> int io" where
  "inner_gen d infile outfile i block_i j carry =
     bind (if i \<noteq> j then bind (read_block infile j) (\<lambda>b. return (d * b))
           else return block_i) (\<lambda>block_j.
     bind (read_block outfile (i + j)) (\<lambda>existing.
     let block_prod = block_i * block_j + carry + existing;
         product = block_prod AND BLOCK_MASK;
         carry' = drop_bit (CHUNK_SIZE * 8) block_prod
     in bind (write_block outfile (i + j) product) (\<lambda>_. return carry')))"

definition outer_gen :: "int \<Rightarrow> nat \<Rightarrow> string \<Rightarrow> string \<Rightarrow> nat \<Rightarrow> nat \<Rightarrow> unit io" where
  "outer_gen d lo infile outfile sz i =
     bind (read_block infile i) (\<lambda>block_i.
     bind (for_each [lo..<sz] (inner_gen d infile outfile i block_i) 0) (\<lambda>carry.
     propagate_carry outfile (i + sz) carry))"

definition whole_gen :: "int \<Rightarrow> (nat \<Rightarrow> nat) \<Rightarrow> string \<Rightarrow> string \<Rightarrow> unit io" where
  "whole_gen d lo input_filename output_filename =
     bind (open_rb input_filename) (\<lambda>infile.
     bind (open_wb output_filename) (\<lambda>outfile.
     bind (get_file_size infile) (\<lambda>sz.
     for_each [0..<sz] (\<lambda>i _. outer_gen d (lo i) infile outfile sz i) ())))"

text \<open>The rounds of the carry loop in round \<open>i\<close> of the generalised outer loop.\<close>

definition before_rounds :: "int \<Rightarrow> nat \<Rightarrow> string \<Rightarrow> string \<Rightarrow> nat \<Rightarrow> nat \<Rightarrow> state \<Rightarrow> nat" where
  "before_rounds d lo infile outfile sz i =
     rounds_after
       (bind (read_block infile i) (\<lambda>block_i.
        for_each [lo..<sz] (inner_gen d infile outfile i block_i) 0))
       outfile (i + sz)"

text \<open>
  The number one round of the inner loop adds to the result, the sum of a row of them,
  and the reads of the operand and of the result that a row makes before its carry is
  propagated.
\<close>

definition term_ij :: "int \<Rightarrow> byte list \<Rightarrow> nat \<Rightarrow> nat \<Rightarrow> int" where
  "term_ij d xs i j = blk xs i * (if i \<noteq> j then d * blk xs j else blk xs i) * 256 ^ (i + j)"

definition row :: "int \<Rightarrow> nat \<Rightarrow> byte list \<Rightarrow> nat \<Rightarrow> nat \<Rightarrow> int" where
  "row d lo xs n i = (\<Sum>j = lo..<n. term_ij d xs i j)"

definition row_reads :: "nat \<Rightarrow> nat \<Rightarrow> nat \<Rightarrow> nat" where
  "row_reads lo n i = 1 + (\<Sum>j = lo..<n. if i \<noteq> j then 2 else 1)"

text \<open>The number of rounds of the inner loop of \<open>square\<close> on \<open>n\<close> blocks.\<close>

definition triangle :: "nat \<Rightarrow> nat" where
  "triangle n = (\<Sum>i = 0..<n. n - i)"

section \<open>Blocks, bytes and single accesses\<close>

lemma blk_bounds: "0 \<le> blk bs k" "blk bs k < 256"
  using uint_bounded [of "bs ! k"] by (simp_all add: blk_def)

lemma and_BLOCK_MASK: "x AND BLOCK_MASK = x mod 256"
proof -
  have "(255::int) = mask 8" by (simp add: mask_eq_exp_minus_1)
  then have "x AND 255 = take_bit 8 x" by (simp only: take_bit_eq_mask)
  then show ?thesis by (simp add: BLOCK_MASK_def CHUNK_SIZE_def take_bit_eq_mod)
qed

lemma drop_bit_CHUNK: "drop_bit (CHUNK_SIZE * 8) (x::int) = x div 256"
  by (simp add: CHUNK_SIZE_def drop_bit_eq_div)

lemma push_bit_CHUNK: "push_bit (CHUNK_SIZE * 8 * i) (x::int) = x * 256 ^ i"
proof -
  have "(2::int) ^ (8 * i) = 256 ^ i" by (simp add: power_mult)
  then show ?thesis by (simp add: CHUNK_SIZE_def push_bit_eq_mult)
qed

lemma from_bytes_append:
  "from_bytes (xs @ ys) = from_bytes xs + 256 ^ length xs * from_bytes ys"
  by (induction xs) (simp_all add: algebra_simps)

lemma from_bytes_replicate_0 [simp]: "from_bytes (replicate n 0) = 0"
  by (induction n) simp_all

lemma from_bytes_nonneg: "0 \<le> from_bytes bs"
  by (induction bs) simp_all

lemma from_bytes_less: "from_bytes bs < 256 ^ length bs"
proof (induction bs)
  case Nil
  show ?case by simp
next
  case (Cons b bs)
  have "uint b < 256" using uint_bounded [of b] by simp
  moreover have "from_bytes bs + 1 \<le> 256 ^ length bs" using Cons by simp
  then have "256 * (from_bytes bs + 1) \<le> 256 * 256 ^ length bs" by (simp only: mult_le_cancel_left_pos)
  ultimately show ?case by (simp add: algebra_simps)
qed

lemma length_file_write: "length (file_write k [b] bs) = max (length bs) (k + 1)"
  by (auto simp add: file_write_def)

lemma from_bytes_file_write:
  "from_bytes (file_write k [b] bs) = from_bytes bs + (uint b - blk bs k) * 256 ^ k"
proof (cases "k < length bs")
  case True
  then have "bs = take k bs @ bs ! k # drop (Suc k) bs"
    by (simp add: id_take_nth_drop [symmetric])
  then have "from_bytes bs = from_bytes (take k bs @ bs ! k # drop (Suc k) bs)"
    by simp
  also have "\<dots> = from_bytes (take k bs) + 256 ^ k * (uint (bs ! k) + 256 * from_bytes (drop (Suc k) bs))"
    using True by (simp add: from_bytes_append)
  finally show ?thesis
    using True by (simp add: file_write_def from_bytes_append blk_def algebra_simps)
next
  case False
  then have "(256::int) ^ length bs * 256 ^ (k - length bs) = 256 ^ k"
    by (simp add: power_add [symmetric])
  with False show ?thesis
    by (simp add: file_write_def from_bytes_append blk_def algebra_simps)
qed

lemma read_block_eq:
  assumes "k < OFFSET_LIMIT \<or> k \<le> length (content st file)"
  shows "read_block file k st = (Inr (blk (content st file) k), st\<lparr>reads := reads st + 1\<rparr>)"
  using assms
  by (auto simp add: read_block_def return_def content_def Let_def file_read_def blk_def seekable_def
        CHUNK_SIZE_def take_Suc_conv_app_nth hd_drop_conv_nth split: option.splits)

lemma read_block_Inr:
  assumes "read_block file k st = (Inr e, st1)"
  shows "e = blk (content st file) k" and "st1 = st\<lparr>reads := reads st + 1\<rparr>"
  using assms
  by (auto simp add: read_block_def return_def raise_def content_def Let_def file_read_def blk_def
        CHUNK_SIZE_def take_Suc_conv_app_nth hd_drop_conv_nth split: option.splits if_splits)

lemma write_block_eq:
  assumes "0 \<le> v" "v < 256"
  shows "write_block file k v st =
    (Inr (), st\<lparr>writes := writes st + 1,
                files := (files st)(file \<mapsto> file_write k [word_of_int v] (content st file))\<rparr>)"
  using assms by (simp add: write_block_def to_bytes_def CHUNK_SIZE_def return_def content_def)

section \<open>The read, add and write step\<close>

lemma frame_refl: "frame out st st"
  by (simp add: frame_def)

lemma frame_trans: "frame out st st1 \<Longrightarrow> frame out st1 st2 \<Longrightarrow> frame out st st2"
  by (auto simp add: frame_def)

lemma frame_content: "frame out st st' \<Longrightarrow> f \<noteq> out \<Longrightarrow> content st' f = content st f"
  by (simp add: frame_def content_def)

lemma read_write_accumulated:
  assumes "read_block out k st = (Inr existing, st1)"
  shows "write_block out k ((x + existing) AND BLOCK_MASK) st1 = (Inr (), accumulated out k x st)"
    and "existing = blk (content st out) k"
proof -
  have e: "existing = blk (content st out) k" and st1: "st1 = st\<lparr>reads := reads st + 1\<rparr>"
    using read_block_Inr [OF assms] by simp_all
  have content: "content st1 out = content st out"
    by (simp add: st1 content_def)
  have "0 \<le> (x + existing) mod 256" "(x + existing) mod 256 < 256"
    by simp_all
  then show "write_block out k ((x + existing) AND BLOCK_MASK) st1 = (Inr (), accumulated out k x st)"
    by (simp add: and_BLOCK_MASK write_block_eq content accumulated_def e) (simp add: st1)
  show "existing = blk (content st out) k" by (rule e)
qed

lemma accumulated_frame: "frame out st (accumulated out k x st)"
  by (simp add: frame_def accumulated_def content_def length_file_write)

lemma accumulated_counts:
  "reads (accumulated out k x st) = reads st + 1"
  "writes (accumulated out k x st) = writes st + 1"
  by (simp_all add: accumulated_def)

lemma accumulated_length:
  "length (content (accumulated out k x st) out) = max (length (content st out)) (k + 1)"
  by (simp add: accumulated_def content_def length_file_write)

lemma accumulated_value:
  "from_bytes (content (accumulated out k x st) out)
     + (x + blk (content st out) k) div 256 * 256 ^ (k + 1)
   = from_bytes (content st out) + x * 256 ^ k"
proof -
  define e where "e = blk (content st out) k"
  define t where "t = x + e"
  define P :: int where "P = 256 ^ k"
  have "uint (word_of_int (t mod 256) :: byte) = t mod 256"
    by (simp add: uint_word_of_int)
  then have "from_bytes (content (accumulated out k x st) out)
      = from_bytes (content st out) + (t mod 256 - e) * P"
    by (simp add: accumulated_def content_def from_bytes_file_write e_def t_def P_def)
  moreover have "(t mod 256 - e) * P + t div 256 * (256 * P) = x * P"
  proof -
    have "(t mod 256 - e) * P + t div 256 * (256 * P) = (t mod 256 + t div 256 * 256 - e) * P"
      by algebra
    also have "t mod 256 + t div 256 * 256 = t"
      by simp
    also have "t - e = x"
      by (simp add: t_def)
    finally show ?thesis .
  qed
  ultimately show ?thesis
    by (simp add: e_def t_def P_def)
qed

section \<open>The loops of the squaring\<close>

lemma bind_Inr: "m st = (Inr x, st1) \<Longrightarrow> bind m f st = f x st1"
  by (simp add: bind_def)

lemma bind_return_right: "bind m return = m"
  by (rule ext) (simp add: bind_def return_def split: prod.splits sum.splits)

lemma propagate_carry_effect:
  assumes "0 \<le> carry" "k \<le> length (content st out)"
  shows "\<exists>st'. propagate_carry out k carry st = (Inr (), st') \<and> frame out st st' \<and>
     from_bytes (content st' out) = from_bytes (content st out) + carry * 256 ^ k \<and>
     reads st' = reads st + propagate_rounds out k carry st \<and>
     writes st' = writes st + propagate_rounds out k carry st \<and>
     (\<forall>m. length (content st out) \<le> m \<and> from_bytes (content st out) + carry * 256 ^ k < 256 ^ m
        \<longrightarrow> length (content st' out) \<le> m)"
  using assms
proof (induction out k carry st rule: propagate_carry.induct)
  case (1 out k carry st)
  show ?case
  proof (cases "0 < carry")
    case False
    with "1.prems" have "carry = 0" by simp
    then have "propagate_carry out k carry st = (Inr (), st)"
      by (subst propagate_carry.simps) (simp add: return_def)
    moreover from \<open>carry = 0\<close> have "propagate_rounds out k carry st = 0"
      by (subst propagate_rounds.simps) simp
    ultimately show ?thesis
      using \<open>carry = 0\<close> by (intro exI [of _ st]) (simp add: frame_refl)
  next
    case True
    define e where "e = blk (content st out) k"
    define st1 where "st1 = st\<lparr>reads := reads st + 1\<rparr>"
    define c' where "c' = (e + carry) div 256"
    define st2 where "st2 = accumulated out k carry st"
    have rd: "read_block out k st = (Inr e, st1)"
      using "1.prems"(2) by (simp add: read_block_eq e_def st1_def)
    have wr: "write_block out k ((e + carry) AND BLOCK_MASK) st1 = (Inr (), st2)"
      using read_write_accumulated(1) [OF rd, of carry] by (simp add: st2_def add.commute)
    have e0: "0 \<le> e" by (simp add: e_def blk_bounds)
    with True have c'0: "0 \<le> c'" by (simp add: c'_def)
    have len2: "k + 1 \<le> length (content st2 out)"
      by (simp add: st2_def accumulated_length)
    have IH: "\<exists>st'. propagate_carry out (k + 1) c' st2 = (Inr (), st') \<and> frame out st2 st' \<and>
       from_bytes (content st' out) = from_bytes (content st2 out) + c' * 256 ^ (k + 1) \<and>
       reads st' = reads st2 + propagate_rounds out (k + 1) c' st2 \<and>
       writes st' = writes st2 + propagate_rounds out (k + 1) c' st2 \<and>
       (\<forall>m. length (content st2 out) \<le> m \<and> from_bytes (content st2 out) + c' * 256 ^ (k + 1) < 256 ^ m
          \<longrightarrow> length (content st' out) \<le> m)"
      by (rule "1.IH" [OF True rd [symmetric] refl refl _ refl wr [symmetric] refl c'0 len2])
        (simp add: c'_def drop_bit_CHUNK)
    then obtain st' where run: "propagate_carry out (k + 1) c' st2 = (Inr (), st')"
      and fr: "frame out st2 st'"
      and val: "from_bytes (content st' out) = from_bytes (content st2 out) + c' * 256 ^ (k + 1)"
      and cnt: "reads st' = reads st2 + propagate_rounds out (k + 1) c' st2"
        "writes st' = writes st2 + propagate_rounds out (k + 1) c' st2"
      and bnd: "\<And>m. length (content st2 out) \<le> m \<Longrightarrow>
          from_bytes (content st2 out) + c' * 256 ^ (k + 1) < 256 ^ m \<Longrightarrow> length (content st' out) \<le> m"
      by blast
    have step: "from_bytes (content st2 out) + c' * 256 ^ (k + 1)
        = from_bytes (content st out) + carry * 256 ^ k"
      using accumulated_value [of out k carry st] by (simp add: st2_def c'_def e_def add.commute)
    have "propagate_carry out k carry st = propagate_carry out (k + 1) c' st2"
      by (subst propagate_carry.simps) (simp add: True rd wr Let_def drop_bit_CHUNK c'_def)
    then have "propagate_carry out k carry st = (Inr (), st')"
      using run by simp
    moreover have rounds: "propagate_rounds out k carry st = 1 + propagate_rounds out (k + 1) c' st2"
      by (subst propagate_rounds.simps) (simp add: True rd wr Let_def drop_bit_CHUNK c'_def)
    moreover have "frame out st st'"
      using accumulated_frame [of out st k carry] fr unfolding st2_def by (rule frame_trans)
    moreover have "from_bytes (content st' out) = from_bytes (content st out) + carry * 256 ^ k"
      using val step by simp
    moreover have "reads st' = reads st + propagate_rounds out k carry st"
      "writes st' = writes st + propagate_rounds out k carry st"
      using cnt by (simp_all add: st2_def accumulated_counts rounds)
    moreover have "length (content st' out) \<le> m"
      if m: "length (content st out) \<le> m" "from_bytes (content st out) + carry * 256 ^ k < 256 ^ m"
      for m
    proof -
      have "(256::int) ^ k \<le> carry * 256 ^ k"
        using True by simp
      also have "\<dots> \<le> from_bytes (content st out) + carry * 256 ^ k"
        using from_bytes_nonneg [of "content st out"] by simp
      finally have "(256::int) ^ k \<le> from_bytes (content st out) + carry * 256 ^ k" .
      then have "(256::int) ^ k < 256 ^ m"
        using m(2) by (rule le_less_trans)
      then have "k < m" by simp
      then have "length (content st2 out) \<le> m"
        using m(1) by (simp add: st2_def accumulated_length)
      then show ?thesis
        using m(2) step by (intro bnd) simp_all
    qed
    ultimately show ?thesis by blast
  qed
qed

lemma square_inner_gen: "square_inner = inner_gen 2"
  by (intro ext) (simp add: square_inner_def inner_gen_def)

lemma naive_inner_gen: "naive_inner = inner_gen 1"
  by (intro ext) (simp add: naive_inner_def inner_gen_def bind_return_right)

lemma term_ij_nonneg: "0 \<le> d \<Longrightarrow> 0 \<le> term_ij d xs i j"
  by (simp add: term_ij_def blk_bounds)

lemma inner_gen_effect:
  assumes "infile \<noteq> outfile" "0 \<le> carry" "0 \<le> d"
    and "block_i = blk (content st infile) i"
    and "j \<le> length (content st infile)" "i + j \<le> length (content st outfile)"
  shows "\<exists>carry' st'. inner_gen d infile outfile i block_i j carry st = (Inr carry', st') \<and>
     0 \<le> carry' \<and> frame outfile st st' \<and>
     from_bytes (content st' outfile) + carry' * 256 ^ (i + j + 1)
       = from_bytes (content st outfile) + carry * 256 ^ (i + j) + term_ij d (content st infile) i j \<and>
     reads st' = reads st + (if i \<noteq> j then 2 else 1) \<and> writes st' = writes st + 1 \<and>
     length (content st' outfile) = max (length (content st outfile)) (i + j + 1)"
proof -
  define block_j where "block_j = (if i \<noteq> j then d * blk (content st infile) j else block_i)"
  define st0 where "st0 = (if i \<noteq> j then st\<lparr>reads := reads st + 1\<rparr> else st)"
  define x where "x = block_i * block_j + carry"
  define e where "e = blk (content st0 outfile) (i + j)"
  define st1 where "st1 = st0\<lparr>reads := reads st0 + 1\<rparr>"
  define st2 where "st2 = accumulated outfile (i + j) x st0"
  have c0: "content st0 f = content st f" for f
    by (simp add: st0_def content_def)
  have first: "(if i \<noteq> j then bind (read_block infile j) (\<lambda>b. return (d * b)) else return block_i) st
      = (Inr block_j, st0)"
    using assms(5) by (simp add: block_j_def st0_def bind_def read_block_eq return_def)
  have rd: "read_block outfile (i + j) st0 = (Inr e, st1)"
    using assms(6) by (simp add: read_block_eq e_def st1_def c0)
  have wr: "write_block outfile (i + j) ((x + e) AND BLOCK_MASK) st1 = (Inr (), st2)"
    using read_write_accumulated(1) [OF rd, of x] by (simp add: st2_def)
  have run: "inner_gen d infile outfile i block_i j carry st = (Inr ((x + e) div 256), st2)"
    unfolding inner_gen_def
    by (simp add: bind_Inr [where m = "if i \<noteq> j then bind (read_block infile j) (\<lambda>b. return (d * b))
           else return block_i" and st = st, OF first]
        bind_Inr [where m = "read_block outfile (i + j)" and st = st0, OF rd] Let_def
        x_def [symmetric] bind_Inr [where m = "write_block outfile (i + j) ((x + e) AND BLOCK_MASK)" and st = st1, OF wr]
        return_def drop_bit_CHUNK)
  have f0: "frame outfile st st0"
    by (simp add: st0_def frame_def content_def)
  have "0 \<le> block_i" "0 \<le> block_j"
    using assms by (simp_all add: block_j_def blk_bounds)
  then have "0 \<le> x"
    using assms by (simp add: x_def)
  moreover have "0 \<le> e" by (simp add: e_def blk_bounds)
  ultimately have "0 \<le> (x + e) div 256" by simp
  moreover have "frame outfile st st2"
    using f0 accumulated_frame [of outfile st0 "i + j" x] unfolding st2_def by (rule frame_trans)
  moreover have "from_bytes (content st2 outfile) + (x + e) div 256 * 256 ^ (i + j + 1)
       = from_bytes (content st outfile) + carry * 256 ^ (i + j) + term_ij d (content st infile) i j"
    using accumulated_value [of outfile "i + j" x st0]
    by (simp add: st2_def e_def c0 x_def term_ij_def block_j_def assms(4) algebra_simps)
  moreover have "reads st2 = reads st + (if i \<noteq> j then 2 else 1)" "writes st2 = writes st + 1"
    by (simp_all add: st2_def accumulated_counts st0_def)
  moreover have "length (content st2 outfile) = max (length (content st outfile)) (i + j + 1)"
    by (simp add: st2_def accumulated_length c0)
  ultimately show ?thesis
    using run by blast
qed

lemma inner_loop_effect:
  assumes "infile \<noteq> outfile" "0 \<le> carry" "0 \<le> d" "j \<le> n"
    and "block_i = blk (content st infile) i"
    and "n \<le> length (content st infile)" "i + j \<le> length (content st outfile)"
  shows "\<exists>carry' st'. for_each [j..<n] (inner_gen d infile outfile i block_i) carry st = (Inr carry', st') \<and>
     0 \<le> carry' \<and> frame outfile st st' \<and>
     from_bytes (content st' outfile) + carry' * 256 ^ (i + n)
       = from_bytes (content st outfile) + carry * 256 ^ (i + j)
         + (\<Sum>j' = j..<n. term_ij d (content st infile) i j') \<and>
     reads st' = reads st + (\<Sum>j' = j..<n. if i \<noteq> j' then 2 else 1) \<and>
     writes st' = writes st + (n - j) \<and>
     length (content st' outfile) \<le> max (length (content st outfile)) (i + n) \<and>
     (j < n \<longrightarrow> i + n \<le> length (content st' outfile))"
  using assms
proof (induction "n - j" arbitrary: j carry st)
  case 0
  then have "j = n" by simp
  then show ?case
    using "0.prems"(2) by (intro exI [of _ carry] exI [of _ st]) (simp add: return_def frame_refl)
next
  case (Suc m)
  then have jn: "j < n" by simp
  then have jin: "j \<le> length (content st infile)"
    using Suc.prems(6) by simp
  from inner_gen_effect [OF Suc.prems(1,2,3,5) jin Suc.prems(7)]
  obtain c1 st1 where step: "inner_gen d infile outfile i block_i j carry st = (Inr c1, st1)"
    and c1: "0 \<le> c1" and fr1: "frame outfile st st1"
    and val1: "from_bytes (content st1 outfile) + c1 * 256 ^ (i + j + 1)
       = from_bytes (content st outfile) + carry * 256 ^ (i + j) + term_ij d (content st infile) i j"
    and cnt1: "reads st1 = reads st + (if i \<noteq> j then 2 else 1)" "writes st1 = writes st + 1"
    and len1: "length (content st1 outfile) = max (length (content st outfile)) (i + j + 1)"
    by blast
  have in1: "content st1 infile = content st infile"
    using fr1 Suc.prems(1) by (rule frame_content)
  have "m = n - Suc j" using Suc.hyps(2) by simp
  moreover have "Suc j \<le> n" using jn by simp
  moreover have "block_i = blk (content st1 infile) i" using Suc.prems(5) in1 by simp
  moreover have "n \<le> length (content st1 infile)" using Suc.prems(6) in1 by simp
  moreover have "i + Suc j \<le> length (content st1 outfile)" using len1 by simp
  ultimately have "\<exists>carry' st'. for_each [Suc j..<n] (inner_gen d infile outfile i block_i) c1 st1 = (Inr carry', st') \<and>
     0 \<le> carry' \<and> frame outfile st1 st' \<and>
     from_bytes (content st' outfile) + carry' * 256 ^ (i + n)
       = from_bytes (content st1 outfile) + c1 * 256 ^ (i + Suc j)
         + (\<Sum>j' = Suc j..<n. term_ij d (content st1 infile) i j') \<and>
     reads st' = reads st1 + (\<Sum>j' = Suc j..<n. if i \<noteq> j' then 2 else 1) \<and>
     writes st' = writes st1 + (n - Suc j) \<and>
     length (content st' outfile) \<le> max (length (content st1 outfile)) (i + n) \<and>
     (Suc j < n \<longrightarrow> i + n \<le> length (content st' outfile))"
    using Suc.prems(1,3) c1 by (intro Suc.hyps(1))
  then obtain c2 st2 where rest: "for_each [Suc j..<n] (inner_gen d infile outfile i block_i) c1 st1 = (Inr c2, st2)"
    and c2: "0 \<le> c2" and fr2: "frame outfile st1 st2"
    and val2: "from_bytes (content st2 outfile) + c2 * 256 ^ (i + n)
       = from_bytes (content st1 outfile) + c1 * 256 ^ (i + Suc j)
         + (\<Sum>j' = Suc j..<n. term_ij d (content st1 infile) i j')"
    and cnt2: "reads st2 = reads st1 + (\<Sum>j' = Suc j..<n. if i \<noteq> j' then 2 else 1)"
      "writes st2 = writes st1 + (n - Suc j)"
    and len2: "length (content st2 outfile) \<le> max (length (content st1 outfile)) (i + n)"
    and low2: "Suc j < n \<longrightarrow> i + n \<le> length (content st2 outfile)"
    by blast
  have "for_each [j..<n] (inner_gen d infile outfile i block_i) carry st = (Inr c2, st2)"
    using jn by (simp add: upt_conv_Cons
        bind_Inr [where m = "inner_gen d infile outfile i block_i j carry" and st = st, OF step] rest)
  moreover have "frame outfile st st2"
    using fr1 fr2 by (rule frame_trans)
  moreover have "from_bytes (content st2 outfile) + c2 * 256 ^ (i + n)
       = from_bytes (content st outfile) + carry * 256 ^ (i + j)
         + (\<Sum>j' = j..<n. term_ij d (content st infile) i j')"
    using val2 val1 jn by (simp add: in1 sum.atLeast_Suc_lessThan)
  moreover have "reads st2 = reads st + (\<Sum>j' = j..<n. if i \<noteq> j' then 2 else 1)"
    using cnt2(1) cnt1(1) jn by (simp add: sum.atLeast_Suc_lessThan [of j n])
  moreover have "writes st2 = writes st + (n - j)"
    using cnt2(2) cnt1(2) jn by simp
  moreover have "length (content st2 outfile) \<le> max (length (content st outfile)) (i + n)"
    using len2 len1 jn by simp
  moreover have "i + n \<le> length (content st2 outfile)"
  proof (cases "Suc j < n")
    case True
    with low2 show ?thesis by simp
  next
    case False
    with jn have "n = Suc j" by simp
    moreover have "length (content st1 outfile) \<le> length (content st2 outfile)"
      using fr2 by (simp add: frame_def)
    ultimately show ?thesis using len1 by simp
  qed
  ultimately show ?case
    using c2 by blast
qed

lemma square_outer_gen: "square_outer infile outfile sz i = outer_gen 2 i infile outfile sz i"
  by (simp add: square_outer_def outer_gen_def square_inner_gen)

lemma naive_outer_gen: "naive_outer infile outfile sz i = outer_gen 1 0 infile outfile sz i"
  by (simp add: naive_outer_def outer_gen_def naive_inner_gen)

lemma row_nonneg: "0 \<le> d \<Longrightarrow> 0 \<le> row d lo xs n i"
  by (simp add: row_def sum_nonneg term_ij_nonneg)

lemma outer_gen_effect:
  assumes "infile \<noteq> outfile" "0 \<le> d" "lo < n" "i < n"
    and "n \<le> length (content st infile)" "i + lo \<le> length (content st outfile)"
  shows "\<exists>st'. outer_gen d lo infile outfile n i st = (Inr (), st') \<and> frame outfile st st' \<and>
     from_bytes (content st' outfile) = from_bytes (content st outfile) + row d lo (content st infile) n i \<and>
     reads st' = reads st + row_reads lo n i + before_rounds d lo infile outfile n i st \<and>
     writes st' = writes st + (n - lo) + before_rounds d lo infile outfile n i st \<and>
     i + n \<le> length (content st' outfile) \<and>
     (\<forall>m. length (content st outfile) \<le> m \<and> i + n \<le> m \<and>
          from_bytes (content st outfile) + row d lo (content st infile) n i < 256 ^ m
        \<longrightarrow> length (content st' outfile) \<le> m)"
proof -
  define block_i where "block_i = blk (content st infile) i"
  define st0 where "st0 = st\<lparr>reads := reads st + 1\<rparr>"
  have rd: "read_block infile i st = (Inr block_i, st0)"
    using assms(4,5) by (simp add: read_block_eq block_i_def st0_def)
  have c0: "content st0 f = content st f" for f
    by (simp add: st0_def content_def)
  have f0: "frame outfile st st0"
    by (simp add: st0_def frame_def content_def)
  have "block_i = blk (content st0 infile) i" "lo \<le> n"
    "n \<le> length (content st0 infile)" "i + lo \<le> length (content st0 outfile)"
    using assms by (simp_all add: block_i_def c0)
  from inner_loop_effect [OF assms(1) order_refl assms(2) this(2,1,3,4)]
  obtain c1 st1 where loop: "for_each [lo..<n] (inner_gen d infile outfile i block_i) 0 st0 = (Inr c1, st1)"
    and c1: "0 \<le> c1" and fr1: "frame outfile st0 st1"
    and val0: "from_bytes (content st1 outfile) + c1 * 256 ^ (i + n)
       = from_bytes (content st0 outfile) + 0 * 256 ^ (i + lo)
         + (\<Sum>j' = lo..<n. term_ij d (content st0 infile) i j')"
    and cnt0: "reads st1 = reads st0 + (\<Sum>j' = lo..<n. if i \<noteq> j' then 2 else 1)"
      "writes st1 = writes st0 + (n - lo)"
    and len0: "length (content st1 outfile) \<le> max (length (content st0 outfile)) (i + n)"
    and low0: "lo < n \<longrightarrow> i + n \<le> length (content st1 outfile)"
    by blast
  have val1: "from_bytes (content st1 outfile) + c1 * 256 ^ (i + n)
       = from_bytes (content st outfile) + row d lo (content st infile) n i"
    using val0 by (simp add: c0 row_def)
  have cnt1: "reads st1 = reads st + row_reads lo n i" "writes st1 = writes st + (n - lo)"
    using cnt0 by (simp_all add: st0_def row_reads_def)
  have len1: "length (content st1 outfile) \<le> max (length (content st outfile)) (i + n)"
    using len0 by (simp add: c0)
  have low1: "i + n \<le> length (content st1 outfile)"
    using low0 assms(3) by simp
  from propagate_carry_effect [OF c1 low1]
  obtain st2 where prpg: "propagate_carry outfile (i + n) c1 st1 = (Inr (), st2)"
    and fr2: "frame outfile st1 st2"
    and val2: "from_bytes (content st2 outfile) = from_bytes (content st1 outfile) + c1 * 256 ^ (i + n)"
    and cnt2: "reads st2 = reads st1 + propagate_rounds outfile (i + n) c1 st1"
      "writes st2 = writes st1 + propagate_rounds outfile (i + n) c1 st1"
    and bnd: "\<And>m. length (content st1 outfile) \<le> m \<Longrightarrow>
        from_bytes (content st1 outfile) + c1 * 256 ^ (i + n) < 256 ^ m \<Longrightarrow>
        length (content st2 outfile) \<le> m"
    by blast
  have before: "bind (read_block infile i) (\<lambda>block_i.
      for_each [lo..<n] (inner_gen d infile outfile i block_i) 0) st = (Inr c1, st1)"
    by (simp add: bind_Inr [where m = "read_block infile i" and st = st, OF rd] loop)
  have rounds: "before_rounds d lo infile outfile n i st = propagate_rounds outfile (i + n) c1 st1"
    by (simp add: before_rounds_def rounds_after_def before)
  have "outer_gen d lo infile outfile n i st = (Inr (), st2)"
    unfolding outer_gen_def
    by (simp add: bind_Inr [where m = "read_block infile i" and st = st, OF rd]
        bind_Inr [where m = "for_each [lo..<n] (inner_gen d infile outfile i block_i) 0" and st = st0, OF loop]
        prpg)
  moreover have "frame outfile st st2"
    using f0 fr1 fr2 by (blast intro: frame_trans)
  moreover have "from_bytes (content st2 outfile)
      = from_bytes (content st outfile) + row d lo (content st infile) n i"
    using val1 val2 by simp
  moreover have "reads st2 = reads st + row_reads lo n i + before_rounds d lo infile outfile n i st"
    "writes st2 = writes st + (n - lo) + before_rounds d lo infile outfile n i st"
    using cnt1 cnt2 by (simp_all add: rounds)
  moreover have "i + n \<le> length (content st2 outfile)"
    using low1 fr2 by (simp add: frame_def)
  moreover have "length (content st2 outfile) \<le> m"
    if "length (content st outfile) \<le> m" "i + n \<le> m"
      "from_bytes (content st outfile) + row d lo (content st infile) n i < 256 ^ m" for m
    using that len1 val1 by (intro bnd) simp_all
  ultimately show ?thesis by blast
qed

lemma outer_loop_effect:
  assumes "infile \<noteq> outfile" "0 \<le> d" "\<And>i. i < n \<Longrightarrow> lo i < n" "i0 \<le> n"
    and "n \<le> length (content st infile)"
    and "i0 < n \<longrightarrow> i0 + lo i0 \<le> length (content st outfile)"
  shows "\<exists>st'. for_each [i0..<n] (\<lambda>i _. outer_gen d (lo i) infile outfile n i) () st = (Inr (), st') \<and>
     frame outfile st st' \<and>
     from_bytes (content st' outfile)
       = from_bytes (content st outfile) + (\<Sum>i = i0..<n. row d (lo i) (content st infile) n i) \<and>
     reads st' = reads st + (\<Sum>i = i0..<n. row_reads (lo i) n i)
       + rounds_of_loop [i0..<n] (\<lambda>i. before_rounds d (lo i) infile outfile n i)
           (\<lambda>i. outer_gen d (lo i) infile outfile n i) st \<and>
     writes st' = writes st + (\<Sum>i = i0..<n. n - lo i)
       + rounds_of_loop [i0..<n] (\<lambda>i. before_rounds d (lo i) infile outfile n i)
           (\<lambda>i. outer_gen d (lo i) infile outfile n i) st \<and>
     (\<forall>m. length (content st outfile) \<le> m \<and> n + n \<le> m \<and>
          from_bytes (content st outfile) + (\<Sum>i = i0..<n. row d (lo i) (content st infile) n i) < 256 ^ m
        \<longrightarrow> length (content st' outfile) \<le> m)"
  using assms(4,5,6)
proof (induction "n - i0" arbitrary: i0 st)
  case 0
  then have "i0 = n" by simp
  then show ?case
    by (intro exI [of _ st]) (simp add: return_def frame_refl)
next
  case (Suc k)
  then have lt: "i0 < n" by simp
  let ?xs = "content st infile"
  let ?cnt = "\<lambda>i. before_rounds d (lo i) infile outfile n i"
  let ?body = "\<lambda>i. outer_gen d (lo i) infile outfile n i"
  have low: "i0 + lo i0 \<le> length (content st outfile)"
    using Suc.prems(3) lt by simp
  from outer_gen_effect [OF assms(1,2) assms(3) [OF lt] lt Suc.prems(2) low]
  obtain st1 where step: "outer_gen d (lo i0) infile outfile n i0 st = (Inr (), st1)"
    and fr1: "frame outfile st st1"
    and val1: "from_bytes (content st1 outfile) = from_bytes (content st outfile) + row d (lo i0) ?xs n i0"
    and cnt1: "reads st1 = reads st + row_reads (lo i0) n i0 + ?cnt i0 st"
      "writes st1 = writes st + (n - lo i0) + ?cnt i0 st"
    and low1: "i0 + n \<le> length (content st1 outfile)"
    and bnd1: "\<And>m. length (content st outfile) \<le> m \<Longrightarrow> i0 + n \<le> m \<Longrightarrow>
          from_bytes (content st outfile) + row d (lo i0) ?xs n i0 < 256 ^ m
        \<Longrightarrow> length (content st1 outfile) \<le> m"
    by blast
  have in1: "content st1 infile = ?xs"
    using fr1 assms(1) by (rule frame_content)
  have "k = n - Suc i0" using Suc.hyps(2) by simp
  moreover have "Suc i0 \<le> n" using lt by simp
  moreover have "n \<le> length (content st1 infile)" using Suc.prems(2) in1 by simp
  moreover have "Suc i0 < n \<longrightarrow> Suc i0 + lo (Suc i0) \<le> length (content st1 outfile)"
    using low1 assms(3) [of "Suc i0"] by auto
  ultimately have "\<exists>st'. for_each [Suc i0..<n] (\<lambda>i _. ?body i) () st1 = (Inr (), st') \<and>
     frame outfile st1 st' \<and>
     from_bytes (content st' outfile)
       = from_bytes (content st1 outfile) + (\<Sum>i = Suc i0..<n. row d (lo i) (content st1 infile) n i) \<and>
     reads st' = reads st1 + (\<Sum>i = Suc i0..<n. row_reads (lo i) n i)
       + rounds_of_loop [Suc i0..<n] ?cnt ?body st1 \<and>
     writes st' = writes st1 + (\<Sum>i = Suc i0..<n. n - lo i)
       + rounds_of_loop [Suc i0..<n] ?cnt ?body st1 \<and>
     (\<forall>m. length (content st1 outfile) \<le> m \<and> n + n \<le> m \<and>
          from_bytes (content st1 outfile) + (\<Sum>i = Suc i0..<n. row d (lo i) (content st1 infile) n i) < 256 ^ m
        \<longrightarrow> length (content st' outfile) \<le> m)"
    by (rule Suc.hyps(1))
  then obtain st2 where rest: "for_each [Suc i0..<n] (\<lambda>i _. ?body i) () st1 = (Inr (), st2)"
    and fr2: "frame outfile st1 st2"
    and val2: "from_bytes (content st2 outfile)
       = from_bytes (content st1 outfile) + (\<Sum>i = Suc i0..<n. row d (lo i) ?xs n i)"
    and cnt2: "reads st2 = reads st1 + (\<Sum>i = Suc i0..<n. row_reads (lo i) n i)
        + rounds_of_loop [Suc i0..<n] ?cnt ?body st1"
      "writes st2 = writes st1 + (\<Sum>i = Suc i0..<n. n - lo i)
        + rounds_of_loop [Suc i0..<n] ?cnt ?body st1"
    and bnd2: "\<And>m. length (content st1 outfile) \<le> m \<Longrightarrow> n + n \<le> m \<Longrightarrow>
          from_bytes (content st1 outfile) + (\<Sum>i = Suc i0..<n. row d (lo i) ?xs n i) < 256 ^ m
        \<Longrightarrow> length (content st2 outfile) \<le> m"
    unfolding in1 by blast
  have split: "(\<Sum>i = i0..<n. f i) = f i0 + (\<Sum>i = Suc i0..<n. f i)" for f :: "nat \<Rightarrow> 'a::comm_monoid_add"
    using lt by (simp add: sum.atLeast_Suc_lessThan)
  have rounds: "rounds_of_loop [i0..<n] ?cnt ?body st
      = ?cnt i0 st + rounds_of_loop [Suc i0..<n] ?cnt ?body st1"
    using lt by (simp add: upt_conv_Cons step)
  have "for_each [i0..<n] (\<lambda>i _. ?body i) () st = (Inr (), st2)"
    using lt by (simp add: upt_conv_Cons
        bind_Inr [where m = "outer_gen d (lo i0) infile outfile n i0" and st = st, OF step] rest)
  moreover have "frame outfile st st2"
    using fr1 fr2 by (rule frame_trans)
  moreover have "from_bytes (content st2 outfile)
       = from_bytes (content st outfile) + (\<Sum>i = i0..<n. row d (lo i) ?xs n i)"
    using val1 val2 by (simp add: split)
  moreover have "reads st2 = reads st + (\<Sum>i = i0..<n. row_reads (lo i) n i)
      + rounds_of_loop [i0..<n] ?cnt ?body st"
    "writes st2 = writes st + (\<Sum>i = i0..<n. n - lo i)
      + rounds_of_loop [i0..<n] ?cnt ?body st"
    using cnt1 cnt2 by (simp_all add: split rounds)
  moreover have "length (content st2 outfile) \<le> m"
    if m: "length (content st outfile) \<le> m" "n + n \<le> m"
      "from_bytes (content st outfile) + (\<Sum>i = i0..<n. row d (lo i) ?xs n i) < 256 ^ m" for m
  proof -
    have "0 \<le> (\<Sum>i = Suc i0..<n. row d (lo i) ?xs n i)"
      using assms(2) by (simp add: sum_nonneg row_nonneg)
    then have "from_bytes (content st outfile) + row d (lo i0) ?xs n i0 < 256 ^ m"
      using m(3) by (simp add: split)
    then have "length (content st1 outfile) \<le> m"
      using m(1,2) lt by (intro bnd1) simp_all
    then show ?thesis
      using m(2,3) val1 by (intro bnd2) (simp_all add: split)
  qed
  ultimately show ?case by blast
qed

section \<open>The sums the loops compute\<close>

lemma blk_append:
  "blk (xs @ [x]) i = (if i < length xs then blk xs i else if i = length xs then uint x else 0)"
  by (simp add: blk_def nth_append)

lemma from_bytes_sum: "from_bytes xs = (\<Sum>i = 0..<length xs. blk xs i * 256 ^ i)"
proof (induction xs rule: rev_induct)
  case Nil
  show ?case by simp
next
  case (snoc x xs)
  have "(\<Sum>i = 0..<length xs. blk (xs @ [x]) i * 256 ^ i) = (\<Sum>i = 0..<length xs. blk xs i * 256 ^ i)"
    by (rule sum.cong) (simp_all add: blk_append)
  then show ?case
    using snoc by (simp add: from_bytes_append blk_append)
qed

lemma term_ij_weights:
  "term_ij d xs i j
     = (blk xs i * 256 ^ i) * (if i \<noteq> j then d * (blk xs j * 256 ^ j) else blk xs i * 256 ^ i)"
  by (simp add: term_ij_def power_add)

lemma triangle_sum:
  fixes t :: "nat \<Rightarrow> int"
  shows "(\<Sum>i = 0..<n. \<Sum>j = i..<n. t i * (if i \<noteq> j then 2 * t j else t i)) = (\<Sum>i = 0..<n. t i)\<^sup>2"
proof (induction n)
  case 0
  show ?case by simp
next
  case (Suc n)
  have "(\<Sum>i = 0..<n. \<Sum>j = i..<Suc n. t i * (if i \<noteq> j then 2 * t j else t i))
      = (\<Sum>i = 0..<n. (\<Sum>j = i..<n. t i * (if i \<noteq> j then 2 * t j else t i)) + t i * (2 * t n))"
    by (rule sum.cong) simp_all
  also have "\<dots> = (\<Sum>i = 0..<n. t i)\<^sup>2 + 2 * t n * (\<Sum>i = 0..<n. t i)"
    by (simp add: sum.distrib Suc sum_distrib_left mult_ac)
  finally show ?case
    by (simp add: power2_eq_square algebra_simps)
qed

lemma full_sum:
  fixes t :: "nat \<Rightarrow> int"
  shows "(\<Sum>i = 0..<n. \<Sum>j = 0..<n. t i * (if i \<noteq> j then 1 * t j else t i)) = (\<Sum>i = 0..<n. t i)\<^sup>2"
proof -
  have "(\<Sum>i = 0..<n. \<Sum>j = 0..<n. t i * (if i \<noteq> j then 1 * t j else t i))
      = (\<Sum>i = 0..<n. \<Sum>j = 0..<n. t i * t j)"
    by (intro sum.cong refl) simp
  then show ?thesis
    by (simp add: power2_eq_square sum_product)
qed

lemma rows_triangle: "(\<Sum>i = 0..<length xs. row 2 i xs (length xs) i) = (from_bytes xs)\<^sup>2"
  unfolding row_def term_ij_weights from_bytes_sum by (rule triangle_sum)

lemma rows_full: "(\<Sum>i = 0..<length xs. row 1 0 xs (length xs) i) = (from_bytes xs)\<^sup>2"
  unfolding row_def term_ij_weights from_bytes_sum by (rule full_sum)

lemma square_less: "(from_bytes xs)\<^sup>2 < 256 ^ (length xs + length xs)"
proof -
  have "(from_bytes xs)\<^sup>2 < (256 ^ length xs)\<^sup>2"
    by (rule power_strict_mono [OF from_bytes_less from_bytes_nonneg]) simp
  then show ?thesis
    by (simp add: power2_eq_square power_add)
qed

lemma triangle_eq: "triangle n = n * (n + 1) div 2"
proof -
  have "(\<Sum>i = 0..<n. n - i) = (\<Sum>i = 0..<n. Suc (n - Suc i))"
    by (rule sum.cong) simp_all
  also have "\<dots> = (\<Sum>i = 0..<n. Suc i)"
    using sum.nat_diff_reindex [of Suc n] by (simp add: atLeast0LessThan)
  also have "\<dots> = n * (n + 1) div 2"
  proof -
    have "2 * (\<Sum>i = 0..<n. Suc i) = n * (n + 1)"
      by (induction n) simp_all
    then show ?thesis by simp
  qed
  finally show ?thesis by (simp add: triangle_def)
qed

lemma row_reads_triangle: "i < n \<Longrightarrow> row_reads i n i = 2 * (n - i)"
  by (simp add: row_reads_def sum.atLeast_Suc_lessThan)

lemma reads_triangle: "(\<Sum>i = 0..<n. row_reads i n i) = 2 * triangle n"
proof -
  have "(\<Sum>i = 0..<n. row_reads i n i) = (\<Sum>i = 0..<n. 2 * (n - i))"
    by (rule sum.cong) (simp_all add: row_reads_triangle)
  then show ?thesis
    by (simp add: triangle_def sum_distrib_left)
qed

section \<open>One call of the squaring\<close>

lemma square_whole_gen: "square = whole_gen 2 (\<lambda>i. i)"
  by (intro ext) (simp add: square_def whole_gen_def square_outer_gen)

lemma square_naive_whole_gen: "square_naive = whole_gen 1 (\<lambda>i. 0)"
  by (intro ext) (simp add: square_naive_def whole_gen_def naive_outer_gen)

lemma whole_gen_effect:
  assumes "inp \<noteq> out" "files st inp = Some xs" "0 \<le> d"
    and "\<forall>i. i < length xs \<longrightarrow> lo i < length xs" "lo 0 = 0"
  shows "\<exists>st' bs. whole_gen d lo inp out st = (Inr (), st') \<and>
     (\<forall>f. f \<noteq> out \<longrightarrow> files st' f = files st f) \<and> files st' out = Some bs \<and>
     from_bytes bs = (\<Sum>i = 0..<length xs. row d (lo i) xs (length xs) i) \<and>
     reads st' = reads st + (\<Sum>i = 0..<length xs. row_reads (lo i) (length xs) i)
       + rounds_of_loop [0..<length xs] (\<lambda>i. before_rounds d (lo i) inp out (length xs) i)
           (\<lambda>i. outer_gen d (lo i) inp out (length xs) i) (st\<lparr>files := (files st)(out \<mapsto> [])\<rparr>) \<and>
     writes st' = writes st + (\<Sum>i = 0..<length xs. length xs - lo i)
       + rounds_of_loop [0..<length xs] (\<lambda>i. before_rounds d (lo i) inp out (length xs) i)
           (\<lambda>i. outer_gen d (lo i) inp out (length xs) i) (st\<lparr>files := (files st)(out \<mapsto> [])\<rparr>) \<and>
     ((\<Sum>i = 0..<length xs. row d (lo i) xs (length xs) i) < 256 ^ (length xs + length xs)
        \<longrightarrow> length bs \<le> length xs + length xs)"
proof -
  define n where "n = length xs"
  define st1 where "st1 = st\<lparr>files := (files st)(out \<mapsto> [])\<rparr>"
  define p where "p = rounds_of_loop [0..<n] (\<lambda>i. before_rounds d (lo i) inp out n i)
           (\<lambda>i. outer_gen d (lo i) inp out n i) st1"
  have op1: "open_rb inp st = (Inr inp, st)"
    using assms(2) by (simp add: open_rb_def return_def)
  have op2: "open_wb out st = (Inr out, st1)"
    by (simp add: open_wb_def return_def st1_def)
  have cin: "content st1 inp = xs"
    using assms(1,2) by (simp add: st1_def content_def)
  have cout: "content st1 out = []"
    by (simp add: st1_def content_def)
  have sz: "get_file_size inp st1 = (Inr n, st1)"
    by (simp add: get_file_size_def return_def cin CHUNK_SIZE_def n_def)
  have lo: "i < n \<Longrightarrow> lo i < n" for i
    using assms(4) by (simp add: n_def)
  have "n \<le> length (content st1 inp)" "0 < n \<longrightarrow> 0 + lo 0 \<le> length (content st1 out)"
    using assms(5) by (simp_all add: cin n_def)
  from outer_loop_effect [of inp out d n lo 0 st1, OF assms(1,3) lo _ this]
  obtain st' where loop: "for_each [0..<n] (\<lambda>i _. outer_gen d (lo i) inp out n i) () st1 = (Inr (), st')"
    and fr: "frame out st1 st'"
    and val: "from_bytes (content st' out) = (\<Sum>i = 0..<n. row d (lo i) xs n i)"
    and cnt: "reads st' = reads st1 + (\<Sum>i = 0..<n. row_reads (lo i) n i) + p"
      "writes st' = writes st1 + (\<Sum>i = 0..<n. n - lo i) + p"
    and bnd: "\<And>m. n + n \<le> m \<Longrightarrow> (\<Sum>i = 0..<n. row d (lo i) xs n i) < 256 ^ m \<Longrightarrow>
        length (content st' out) \<le> m"
    unfolding cin cout p_def by auto
  have run: "whole_gen d lo inp out st = (Inr (), st')"
    unfolding whole_gen_def
    by (simp add: bind_Inr [where m = "open_rb inp" and st = st, OF op1]
        bind_Inr [where m = "open_wb out" and st = st, OF op2]
        bind_Inr [where m = "get_file_size inp" and st = st1, OF sz] loop)
  have "files st1 out \<noteq> None" by (simp add: st1_def)
  with fr have "files st' out \<noteq> None" by (simp add: frame_def)
  then have out: "files st' out = Some (content st' out)"
    by (auto simp add: content_def)
  have other: "\<forall>f. f \<noteq> out \<longrightarrow> files st' f = files st f"
    using fr by (simp add: frame_def st1_def)
  have "reads st' = reads st + (\<Sum>i = 0..<n. row_reads (lo i) n i) + p"
    "writes st' = writes st + (\<Sum>i = 0..<n. n - lo i) + p"
    using cnt by (simp_all add: st1_def)
  with run other out val bnd [of "n + n"] show ?thesis
    unfolding n_def p_def st1_def by blast
qed

lemma carry_rounds_gen:
  assumes "files st inp = Some xs" "inp \<noteq> out"
  shows "carry_rounds inp out st
    = rounds_of_loop [0..<length xs] (\<lambda>i. before_rounds 2 i inp out (length xs) i)
        (\<lambda>i. outer_gen 2 i inp out (length xs) i) (st\<lparr>files := (files st)(out \<mapsto> [])\<rparr>)"
proof -
  have "square_outer inp out (length xs) = (\<lambda>i. outer_gen 2 i inp out (length xs) i)"
    by (rule ext) (rule square_outer_gen)
  then show ?thesis
    using assms
    by (simp add: carry_rounds_def bind_def open_rb_def open_wb_def get_file_size_def return_def
        content_def CHUNK_SIZE_def before_rounds_def square_inner_gen)
qed

text \<open>What one call of \<open>square\<close> does to the state.\<close>

lemma square_effect:
  assumes "inp \<noteq> out" "files st inp = Some xs"
  shows "\<exists>st' bs. square inp out st = (Inr (), st') \<and>
     (\<forall>f. f \<noteq> out \<longrightarrow> files st' f = files st f) \<and> files st' out = Some bs \<and>
     from_bytes bs = (from_bytes xs)\<^sup>2 \<and> length bs \<le> 2 * length xs \<and>
     reads st' = reads st + 2 * triangle (length xs) + carry_rounds inp out st \<and>
     writes st' = writes st + triangle (length xs) + carry_rounds inp out st"
proof -
  have lo: "\<forall>i. i < length xs \<longrightarrow> i < length xs"
    by simp
  have "(0::int) \<le> 2" by simp
  from whole_gen_effect [where lo = "\<lambda>i. i", OF assms this lo refl] square_less [of xs]
  show ?thesis
    by (simp add: square_whole_gen rows_triangle reads_triangle triangle_def mult_2
        carry_rounds_gen [OF assms(2,1)]) blast
qed

lemma square_naive_effect:
  assumes "inp \<noteq> out" "files st inp = Some xs"
  shows "\<exists>st' bs. square_naive inp out st = (Inr (), st') \<and>
     (\<forall>f. f \<noteq> out \<longrightarrow> files st' f = files st f) \<and> files st' out = Some bs \<and>
     from_bytes bs = (from_bytes xs)\<^sup>2"
proof -
  have lo: "\<forall>i. i < length xs \<longrightarrow> (0::nat) < length xs"
    by (cases xs) simp_all
  have "(0::int) \<le> 1" by simp
  from whole_gen_effect [where lo = "\<lambda>i. 0", OF assms this lo refl]
  show ?thesis
    by (simp add: square_naive_whole_gen rows_full) blast
qed

section \<open>Encoding and decoding\<close>

lemma content_reads [simp]: "content (st\<lparr>reads := r\<rparr>) f = content st f"
  by (simp add: content_def)

lemma file_to_num_loop:
  assumes "j \<le> n" "n \<le> length (content st f)"
  shows "for_each [j..<n]
      (\<lambda>i res. bind (read_block f i) (\<lambda>b. return (res + push_bit (CHUNK_SIZE * 8 * i) b))) res st
    = (Inr (res + (\<Sum>i = j..<n. blk (content st f) i * 256 ^ i)), st\<lparr>reads := reads st + (n - j)\<rparr>)"
  using assms
proof (induction "n - j" arbitrary: j res st)
  case 0
  then show ?case by (simp add: return_def)
next
  case (Suc m)
  then have lt: "j < n" and m: "m = n - Suc j" and le: "Suc j \<le> n" by simp_all
  have rd: "read_block f j st = (Inr (blk (content st f) j), st\<lparr>reads := reads st + 1\<rparr>)"
    using lt Suc.prems(2) by (simp add: read_block_eq)
  have "n \<le> length (content (st\<lparr>reads := reads st + 1\<rparr>) f)"
    using Suc.prems(2) by simp
  from Suc.hyps(1) [OF m le this, of "res + blk (content st f) j * 256 ^ j"] lt
  show ?case
    by (simp add: upt_conv_Cons bind_def rd return_def push_bit_CHUNK
        sum.atLeast_Suc_lessThan [of j n] add.assoc)
qed

lemma file_to_num_effect:
  assumes "files st f = Some bs"
  shows "file_to_num f st = (Inr (from_bytes bs), st\<lparr>reads := reads st + length bs\<rparr>)"
proof -
  have c: "content st f = bs" using assms by (simp add: content_def)
  have "file_to_num f st = for_each [0..<length bs]
      (\<lambda>i res. bind (read_block f i) (\<lambda>b. return (res + push_bit (CHUNK_SIZE * 8 * i) b))) 0 st"
    using assms by (simp add: file_to_num_def bind_def open_rb_def return_def get_file_size_def c CHUNK_SIZE_def)
  then show ?thesis
    by (simp add: file_to_num_loop c from_bytes_sum)
qed

lemma to_bytes_block: "0 \<le> v \<Longrightarrow> v < 256 \<Longrightarrow> to_bytes v CHUNK_SIZE = Inr [word_of_int v]"
  by (simp add: to_bytes_def CHUNK_SIZE_def)

lemma num_to_file_loop_effect:
  assumes "0 \<le> n" "files st f = Some cs"
  shows "\<exists>bs. num_to_file_loop f n st = Some (Inr (), st\<lparr>files := (files st)(f \<mapsto> cs @ bs)\<rparr>) \<and>
     from_bytes bs = n \<and> (n = 0 \<longrightarrow> bs = [])"
  using assms
proof (induction "nat n" arbitrary: n st cs rule: less_induct)
  case less
  show ?case
  proof (cases "n = 0")
    case True
    then have "num_to_file_loop f n st = Some (Inr (), st)"
      by (subst num_to_file_loop.simps) simp
    moreover have "st\<lparr>files := (files st)(f \<mapsto> cs @ [])\<rparr> = st"
      using less.prems(2) by (simp add: fun_upd_idem)
    ultimately show ?thesis
      using True by (intro exI [of _ "[]"]) simp
  next
    case False
    with less.prems have pos: "0 < n" by simp
    define w :: byte where "w = word_of_int (n mod 256)"
    define st1 where "st1 = st\<lparr>files := (files st)(f \<mapsto> cs @ [w])\<rparr>"
    have tb: "to_bytes (n AND BLOCK_MASK) CHUNK_SIZE = Inr [w]"
      by (simp add: and_BLOCK_MASK to_bytes_block w_def)
    have ap: "file_append f [w] st = (Inr (), st1)"
      using less.prems(2) by (simp add: file_append_def return_def st1_def content_def)
    have unfold: "num_to_file_loop f n st = num_to_file_loop f (n div 256) st1"
      using False by (subst num_to_file_loop.simps) (simp add: tb ap drop_bit_CHUNK)
    have "nat (n div 256) < nat n" "0 \<le> n div 256"
      using pos by simp_all
    moreover have "files st1 f = Some (cs @ [w])"
      by (simp add: st1_def)
    ultimately obtain bs where run: "num_to_file_loop f (n div 256) st1
        = Some (Inr (), st1\<lparr>files := (files st1)(f \<mapsto> (cs @ [w]) @ bs)\<rparr>)"
      and val: "from_bytes bs = n div 256"
      using less.hyps [of "n div 256" st1 "cs @ [w]"] by blast
    have "st1\<lparr>files := (files st1)(f \<mapsto> (cs @ [w]) @ bs)\<rparr>
        = st\<lparr>files := (files st)(f \<mapsto> cs @ (w # bs))\<rparr>"
      by (simp add: st1_def)
    moreover have "from_bytes (w # bs) = n"
      by (simp add: val w_def uint_word_of_int)
    ultimately show ?thesis
      using unfold run False by (intro exI [of _ "w # bs"]) simp
  qed
qed

lemma num_to_file_effect:
  assumes "0 \<le> n"
  shows "\<exists>bs. num_to_file n name st = Some (Inr (), st\<lparr>files := (files st)(name \<mapsto> bs)\<rparr>) \<and>
     from_bytes bs = n \<and> (n = 0 \<longrightarrow> bs = [])"
proof -
  define st1 where "st1 = st\<lparr>files := (files st)(name \<mapsto> [])\<rparr>"
  have "files st1 name = Some []" by (simp add: st1_def)
  from num_to_file_loop_effect [OF assms this]
  obtain bs where "num_to_file_loop name n st1 = Some (Inr (), st1\<lparr>files := (files st1)(name \<mapsto> bs)\<rparr>)"
    and "from_bytes bs = n" "n = 0 \<longrightarrow> bs = []"
    by auto
  moreover have "num_to_file n name st = num_to_file_loop name n st1"
    by (simp add: num_to_file_def open_wb_def return_def st1_def)
  moreover have "st1\<lparr>files := (files st1)(name \<mapsto> bs)\<rparr> = st\<lparr>files := (files st)(name \<mapsto> bs)\<rparr>"
    by (simp add: st1_def)
  ultimately show ?thesis by auto
qed

section \<open>The driving loop\<close>

lemma os_replace_effect:
  assumes "files st src = Some bs"
  shows "os_replace src dst st = (Inr (), st\<lparr>files := (files st)(src := None, dst \<mapsto> bs)\<rparr>)"
  using assms by (simp add: os_replace_def return_def)

lemma driving_round_effect:
  assumes "files st ''num.bin'' = Some xs"
  shows "\<exists>st' bs. driving_round i printed st = (Inr (printed @ [(from_bytes xs)\<^sup>2]), st') \<and>
     files st' ''num.bin'' = Some bs \<and> from_bytes bs = (from_bytes xs)\<^sup>2"
proof -
  have ne: "''num.bin'' \<noteq> ''result.bin''" by simp
  from square_effect [OF ne assms]
  obtain st1 bs where sq: "square ''num.bin'' ''result.bin'' st = (Inr (), st1)"
    and out: "files st1 ''result.bin'' = Some bs"
    and val: "from_bytes bs = (from_bytes xs)\<^sup>2"
    by blast
  define st2 where "st2 = st1\<lparr>files := (files st1)(''result.bin'' := None, ''num.bin'' \<mapsto> bs)\<rparr>"
  define st3 where "st3 = st2\<lparr>reads := reads st2 + length bs\<rparr>"
  have rp: "os_replace ''result.bin'' ''num.bin'' st1 = (Inr (), st2)"
    using out by (simp add: os_replace_effect st2_def)
  have num: "files st2 ''num.bin'' = Some bs"
    by (simp add: st2_def)
  have dec: "file_to_num ''num.bin'' st2 = (Inr (from_bytes bs), st3)"
    using num by (simp add: file_to_num_effect st3_def)
  have "driving_round i printed st = (Inr (printed @ [from_bytes bs]), st3)"
    unfolding driving_round_def
    by (simp add: bind_Inr [where m = "square ''num.bin'' ''result.bin''" and st = st, OF sq]
        bind_Inr [where m = "os_replace ''result.bin'' ''num.bin''" and st = st1, OF rp]
        bind_Inr [where m = "file_to_num ''num.bin''" and st = st2, OF dec] return_def)
  moreover have "files st3 ''num.bin'' = Some bs"
    using num by (simp add: st3_def)
  ultimately show ?thesis
    using val by auto
qed

lemma driving_rounds_effect:
  assumes "files st ''num.bin'' = Some xs"
  shows "\<exists>st'. for_each ks driving_round printed st
     = (Inr (printed @ map (\<lambda>k. from_bytes xs ^ 2 ^ Suc k) [0..<length ks]), st')"
  using assms
proof (induction ks arbitrary: st xs printed)
  case Nil
  show ?case by (simp add: return_def)
next
  case (Cons k ks)
  from driving_round_effect [OF Cons.prems, of k printed]
  obtain st1 bs where rnd: "driving_round k printed st = (Inr (printed @ [(from_bytes xs)\<^sup>2]), st1)"
    and num: "files st1 ''num.bin'' = Some bs" and val: "from_bytes bs = (from_bytes xs)\<^sup>2"
    by blast
  from Cons.IH [OF num, of "printed @ [(from_bytes xs)\<^sup>2]"]
  obtain st2 where rest: "for_each ks driving_round (printed @ [(from_bytes xs)\<^sup>2]) st1
     = (Inr ((printed @ [(from_bytes xs)\<^sup>2]) @ map (\<lambda>k. from_bytes bs ^ 2 ^ Suc k) [0..<length ks]), st2)"
    by blast
  have "((from_bytes xs)\<^sup>2) ^ 2 ^ Suc j = from_bytes xs ^ 2 ^ Suc (Suc j)" for j
    by (simp add: power_mult [symmetric])
  then have "map (\<lambda>k. from_bytes xs ^ 2 ^ Suc k) [0..<length (k # ks)]
      = (from_bytes xs)\<^sup>2 # map (\<lambda>k. from_bytes bs ^ 2 ^ Suc k) [0..<length ks]"
    by (simp add: map_upt_Suc val del: upt_Suc power_Suc)
  then show ?case
    using rest by (simp add: bind_Inr [where m = "driving_round k printed" and st = st, OF rnd])
qed

section \<open>Further facts about the model\<close>

text \<open>
  A successful write at \<open>pos\<close> leaves the file longer than \<open>pos\<close>. Together with
  \<open>frame\<close>, by which no step of the squaring shortens the result file, the length of the
  result file bounds every index the squaring has written to.
\<close>

lemma write_block_extends:
  assumes "write_block file pos v st = (Inr u, st')"
  shows "pos < length (content st' file)"
  using assms
  by (auto simp add: write_block_def to_bytes_def raise_def return_def CHUNK_SIZE_def content_def
      file_write_def split: if_splits)

text \<open>
  The specification's squaring consumes one store and produces another. In the program
  the two are files given by name, and the claims below are about two different files.
  Given the same name twice, \<open>square\<close> empties the file when it opens it for writing,
  reads the size 0 afterwards and does nothing else.
\<close>

lemma square_same_file:
  assumes "files st filename = Some xs"
  shows "square filename filename st = (Inr (), st\<lparr>files := (files st)(filename \<mapsto> [])\<rparr>)"
  using assms
  by (simp add: square_def bind_def open_rb_def open_wb_def get_file_size_def return_def content_def)

text \<open>The program run on small operands, by evaluation of its definitions.\<close>

lemmas run_defs = square_def square_outer_def square_inner_def square_naive_def naive_outer_def
  naive_inner_def bind_def return_def raise_def open_rb_def open_wb_def get_file_size_def
  read_block_def write_block_def to_bytes_def content_def file_read_def file_write_def
  file_append_def seekable_def OFFSET_LIMIT_def CHUNK_SIZE_def BLOCK_MASK_def
  propagate_carry.simps Let_def

lemma encode_example:
  "num_to_file 65535 ''num.bin'' \<lparr>files = Map.empty, reads = 0, writes = 0\<rparr>
     = Some (Inr (), \<lparr>files = [''num.bin'' \<mapsto> [255, 255]], reads = 0, writes = 0\<rparr>)"
  by (simp add: num_to_file_def num_to_file_loop.simps run_defs)

lemma square_example:
  "square ''num.bin'' ''result.bin'' \<lparr>files = [''num.bin'' \<mapsto> [255, 255]], reads = 0, writes = 0\<rparr>
     = (Inr (), \<lparr>files = [''num.bin'' \<mapsto> [255, 255], ''result.bin'' \<mapsto> [1, 0, 254, 255]],
                 reads = 9, writes = 6\<rparr>)"
  by (simp add: run_defs)

lemma square_naive_example:
  "square_naive ''num.bin'' ''result.bin'' \<lparr>files = [''num.bin'' \<mapsto> [255, 255]], reads = 0, writes = 0\<rparr>
     = (Inr (), \<lparr>files = [''num.bin'' \<mapsto> [255, 255], ''result.bin'' \<mapsto> [1, 0, 254, 255]],
                 reads = 10, writes = 6\<rparr>)"
  by (simp add: run_defs)

lemma decode_example:
  "file_to_num ''result.bin'' \<lparr>files = [''result.bin'' \<mapsto> [1, 0, 254, 255]], reads = 0, writes = 0\<rparr>
     = (Inr 4294836225, \<lparr>files = [''result.bin'' \<mapsto> [1, 0, 254, 255]], reads = 4, writes = 0\<rparr>)"
  by (simp add: file_to_num_def run_defs upt_rec)

section \<open>The claims\<close>

text \<open>
  In what follows the operand of \<open>square\<close> is the content of the file
  \<open>input_filename\<close> and its result the content of \<open>output_filename\<close> afterwards;
  \<open>encode\<close> is \<open>num_to_file\<close> and \<open>decode\<close> is \<open>file_to_num\<close>.
\<close>

text \<open>
  \<^bold>\<open>Claim C1.\<close> For every non-negative integer \<open>n\<close>, encoding \<open>n\<close>, squaring the
  encoding and decoding the result all succeed, and the decoded number is \<open>n * n\<close>.
\<close>

theorem square_correct:
  assumes "0 \<le> n" "input_filename \<noteq> output_filename"
  shows "\<exists>st1 st2 st3.
     num_to_file n input_filename st = Some (Inr (), st1) \<and>
     square input_filename output_filename st1 = (Inr (), st2) \<and>
     file_to_num output_filename st2 = (Inr (n * n), st3)"
proof -
  from num_to_file_effect [OF assms(1), of input_filename st]
  obtain xs where enc: "num_to_file n input_filename st
      = Some (Inr (), st\<lparr>files := (files st)(input_filename \<mapsto> xs)\<rparr>)"
    and xs: "from_bytes xs = n"
    by blast
  define st1 where "st1 = st\<lparr>files := (files st)(input_filename \<mapsto> xs)\<rparr>"
  have "files st1 input_filename = Some xs" by (simp add: st1_def)
  from square_effect [OF assms(2) this]
  obtain st2 bs where sq: "square input_filename output_filename st1 = (Inr (), st2)"
    and out: "files st2 output_filename = Some bs"
    and val: "from_bytes bs = (from_bytes xs)\<^sup>2"
    by blast
  have "file_to_num output_filename st2 = (Inr (n * n), st2\<lparr>reads := reads st2 + length bs\<rparr>)"
    using file_to_num_effect [OF out] by (simp add: val xs power2_eq_square)
  with enc sq show ?thesis
    unfolding st1_def by blast
qed

theorem square_correct_witness:
  "(0::int) \<le> 300 \<and> ''num.bin'' \<noteq> ''result.bin'' \<and>
   (\<exists>st1 st2 st3.
     num_to_file 300 ''num.bin'' \<lparr>files = Map.empty, reads = 0, writes = 0\<rparr> = Some (Inr (), st1) \<and>
     square ''num.bin'' ''result.bin'' st1 = (Inr (), st2) \<and>
     file_to_num ''result.bin'' st2 = (Inr 90000, st3))"
  using square_correct [of 300 "''num.bin''" "''result.bin''" "\<lparr>files = Map.empty, reads = 0, writes = 0\<rparr>"]
  by simp

text \<open>
  \<^bold>\<open>Claim C2\<close> states that the read and write counts of one call, after a reset of
  the counters, depend on the number of blocks only. They do not: the one-block operands
  3 and 255 take 2 reads and 1 write, and 3 reads and 2 writes. Squaring 255 leaves a
  carry after the inner loop, and each round of the carry loop is one more read and one
  more write.
\<close>

theorem io_counts_depend_on_blocks:
  "length [3 :: byte] = length [255 :: byte] \<and>
   square ''num.bin'' ''result.bin'' \<lparr>files = [''num.bin'' \<mapsto> [3]], reads = 0, writes = 0\<rparr>
     = (Inr (), \<lparr>files = [''num.bin'' \<mapsto> [3], ''result.bin'' \<mapsto> [9]], reads = 2, writes = 1\<rparr>) \<and>
   square ''num.bin'' ''result.bin'' \<lparr>files = [''num.bin'' \<mapsto> [255]], reads = 0, writes = 0\<rparr>
     = (Inr (), \<lparr>files = [''num.bin'' \<mapsto> [255], ''result.bin'' \<mapsto> [1, 254]], reads = 3, writes = 2\<rparr>)"
  by (simp add: run_defs)

text \<open>
  \<^bold>\<open>Claim C2, amended.\<close> For two operands of the same number \<open>n\<close> of blocks, one
  call each after a reset of the counters succeeds with \<open>n * (n + 1) + p\<close> reads and
  \<open>n * (n + 1) div 2 + p\<close> writes, where \<open>p\<close> is the number of rounds that the carry
  loop makes in that call (\<open>carry_rounds\<close>), which depends on the blocks. So the counts
  are those given by the number of blocks exactly when the carry loop makes no round, and
  the reads exceed the writes by \<open>n * (n + 1) div 2\<close> in every call.
\<close>

theorem io_counts_by_size:
  assumes "input_filename \<noteq> output_filename"
    and "files st input_filename = Some xs" "files st' input_filename = Some ys"
    and "length xs = length ys"
    and "reads st = 0" "writes st = 0" "reads st' = 0" "writes st' = 0"
  shows "\<exists>st1 st1'.
     square input_filename output_filename st = (Inr (), st1) \<and>
     square input_filename output_filename st' = (Inr (), st1') \<and>
     reads st1 = length xs * (length xs + 1) + carry_rounds input_filename output_filename st \<and>
     writes st1 = length xs * (length xs + 1) div 2 + carry_rounds input_filename output_filename st \<and>
     reads st1' = length xs * (length xs + 1) + carry_rounds input_filename output_filename st' \<and>
     writes st1' = length xs * (length xs + 1) div 2 + carry_rounds input_filename output_filename st'"
proof -
  have even: "2 * (n * (n + 1) div 2) = n * (n + 1)" for n :: nat
    by simp
  from square_effect [OF assms(1,2)]
  obtain st1 where "square input_filename output_filename st = (Inr (), st1)"
    and "reads st1 = reads st + 2 * triangle (length xs) + carry_rounds input_filename output_filename st"
    and "writes st1 = writes st + triangle (length xs) + carry_rounds input_filename output_filename st"
    by blast
  moreover from square_effect [OF assms(1,3)]
  obtain st1' where "square input_filename output_filename st' = (Inr (), st1')"
    and "reads st1' = reads st' + 2 * triangle (length ys) + carry_rounds input_filename output_filename st'"
    and "writes st1' = writes st' + triangle (length ys) + carry_rounds input_filename output_filename st'"
    by blast
  ultimately show ?thesis
    using assms(4-) by (simp add: triangle_eq even)
qed

theorem io_counts_by_size_witness:
  "''num.bin'' \<noteq> ''result.bin'' \<and>
   files \<lparr>files = [''num.bin'' \<mapsto> [3]], reads = 0, writes = 0\<rparr> ''num.bin'' = Some [3] \<and>
   files \<lparr>files = [''num.bin'' \<mapsto> [255]], reads = 0, writes = 0\<rparr> ''num.bin'' = Some [255] \<and>
   length [3 :: byte] = length [255 :: byte] \<and>
   carry_rounds ''num.bin'' ''result.bin'' \<lparr>files = [''num.bin'' \<mapsto> [3]], reads = 0, writes = 0\<rparr> = 0 \<and>
   carry_rounds ''num.bin'' ''result.bin'' \<lparr>files = [''num.bin'' \<mapsto> [255]], reads = 0, writes = 0\<rparr> = 1 \<and>
   (\<exists>st1 st1'.
     square ''num.bin'' ''result.bin'' \<lparr>files = [''num.bin'' \<mapsto> [3]], reads = 0, writes = 0\<rparr> = (Inr (), st1) \<and>
     square ''num.bin'' ''result.bin'' \<lparr>files = [''num.bin'' \<mapsto> [255]], reads = 0, writes = 0\<rparr> = (Inr (), st1') \<and>
     reads st1 = 2 \<and> writes st1 = 1 \<and> reads st1' = 3 \<and> writes st1' = 2)"
proof -
  have r3: "carry_rounds ''num.bin'' ''result.bin''
      \<lparr>files = [''num.bin'' \<mapsto> [3]], reads = 0, writes = 0\<rparr> = 0"
    by (simp add: carry_rounds_def rounds_after_def propagate_rounds.simps run_defs)
  have r255: "carry_rounds ''num.bin'' ''result.bin''
      \<lparr>files = [''num.bin'' \<mapsto> [255]], reads = 0, writes = 0\<rparr> = 1"
    by (simp add: carry_rounds_def rounds_after_def propagate_rounds.simps run_defs)
  show ?thesis
    using io_counts_by_size [of "''num.bin''" "''result.bin''"
      "\<lparr>files = [''num.bin'' \<mapsto> [3]], reads = 0, writes = 0\<rparr>" "[3]"
      "\<lparr>files = [''num.bin'' \<mapsto> [255]], reads = 0, writes = 0\<rparr>" "[255]"]
    by (simp add: r3 r255 eval_nat_numeral)
qed






text \<open>
  \<^bold>\<open>Claim C5.\<close> For every non-negative integer \<open>n\<close>, encoding \<open>n\<close> ends and
  succeeds, and decoding the file it wrote returns \<open>n\<close>. Decoding any file returns the
  sum of its blocks, block \<open>i\<close> shifted left by \<open>8 * i\<close> bits, which is 0 for a file
  of no blocks.
\<close>

theorem round_trip:
  assumes "0 \<le> n" "files st' file = Some cs"
  shows "(\<exists>st1 st2.
       num_to_file n filename st = Some (Inr (), st1) \<and>
       file_to_num filename st1 = (Inr n, st2)) \<and>
     file_to_num file st'
       = (Inr (\<Sum>i = 0..<length cs. push_bit (CHUNK_SIZE * 8 * i) (uint (cs ! i))),
          st'\<lparr>reads := reads st' + length cs\<rparr>)"
proof -
  from num_to_file_effect [OF assms(1), of filename st]
  obtain bs where enc: "num_to_file n filename st
      = Some (Inr (), st\<lparr>files := (files st)(filename \<mapsto> bs)\<rparr>)"
    and bs: "from_bytes bs = n"
    by blast
  define st1 where "st1 = st\<lparr>files := (files st)(filename \<mapsto> bs)\<rparr>"
  have "files st1 filename = Some bs" by (simp add: st1_def)
  then have "file_to_num filename st1 = (Inr n, st1\<lparr>reads := reads st1 + length bs\<rparr>)"
    using file_to_num_effect [of st1 filename bs] by (simp add: bs)
  with enc have "\<exists>st1 st2.
       num_to_file n filename st = Some (Inr (), st1) \<and>
       file_to_num filename st1 = (Inr n, st2)"
    unfolding st1_def by blast
  moreover have "(\<Sum>i = 0..<length cs. push_bit (CHUNK_SIZE * 8 * i) (uint (cs ! i)))
      = (\<Sum>i = 0..<length cs. blk cs i * 256 ^ i)"
    by (rule sum.cong) (simp_all add: blk_def push_bit_CHUNK)
  then have "file_to_num file st'
       = (Inr (\<Sum>i = 0..<length cs. push_bit (CHUNK_SIZE * 8 * i) (uint (cs ! i))),
          st'\<lparr>reads := reads st' + length cs\<rparr>)"
    using file_to_num_effect [OF assms(2)] by (simp add: from_bytes_sum)
  ultimately show ?thesis by simp
qed

theorem round_trip_witness:
  "(0::int) \<le> 1000 \<and>
   files \<lparr>files = [''result.bin'' \<mapsto> []], reads = 0, writes = 0\<rparr> ''result.bin'' = Some [] \<and>
   (\<exists>st1 st2.
     num_to_file 1000 ''num.bin'' \<lparr>files = Map.empty, reads = 0, writes = 0\<rparr> = Some (Inr (), st1) \<and>
     file_to_num ''num.bin'' st1 = (Inr 1000, st2)) \<and>
   file_to_num ''result.bin'' \<lparr>files = [''result.bin'' \<mapsto> []], reads = 0, writes = 0\<rparr>
     = (Inr 0, \<lparr>files = [''result.bin'' \<mapsto> []], reads = 0, writes = 0\<rparr>)"
  using round_trip [of 1000 "\<lparr>files = [''result.bin'' \<mapsto> []], reads = 0, writes = 0\<rparr>"
      "''result.bin''" "[]" "''num.bin''" "\<lparr>files = Map.empty, reads = 0, writes = 0\<rparr>"]
  by simp

text \<open>
  \<^bold>\<open>Claim C6.\<close> From any state, the driving loop (the number 3 encoded, then six
  rounds of squaring, replacing the operand by the result and decoding it) ends without
  an exception and prints exactly the six numbers below.
\<close>

theorem driving_loop_prints:
  "\<exists>st'. driving_loop st
     = Some (Inr [9, 81, 6561, 43046721, 1853020188851841, 3433683820292512484657849089281], st')"
proof -
  from num_to_file_effect [of 3 "''num.bin''" st]
  obtain bs where enc: "num_to_file 3 ''num.bin'' st
      = Some (Inr (), st\<lparr>files := (files st)(''num.bin'' \<mapsto> bs)\<rparr>)"
    and val: "from_bytes bs = 3"
    by auto
  define st1 where "st1 = st\<lparr>files := (files st)(''num.bin'' \<mapsto> bs)\<rparr>"
  have "files st1 ''num.bin'' = Some bs" by (simp add: st1_def)
  from driving_rounds_effect [OF this, of "[0..<6]" "[]"]
  obtain st' where "for_each [0..<6] driving_round [] st1
     = (Inr (map (\<lambda>k. 3 ^ 2 ^ Suc k) [0..<6]), st')"
    by (auto simp add: val)
  moreover have "[0..<6] = [0, 1, 2, 3, 4, 5]"
    by code_simp
  ultimately have "for_each [0..<6] driving_round [] st1
     = (Inr [9, 81, 6561, 43046721, 1853020188851841, 3433683820292512484657849089281], st')"
    by simp
  then show ?thesis
    using enc by (simp add: driving_loop_def st1_def)
qed

text \<open>
  \<^bold>\<open>Claim C7.\<close> For every operand, the triangular squaring of the program and the
  full schoolbook variant both succeed, and their results decode to the same integer.
\<close>

theorem triangular_agrees_with_naive:
  assumes "input_filename \<noteq> output_filename" "files st input_filename = Some xs"
  shows "\<exists>v st1 st1' st2 st2'.
     square input_filename output_filename st = (Inr (), st1) \<and>
     file_to_num output_filename st1 = (Inr v, st1') \<and>
     square_naive input_filename output_filename st = (Inr (), st2) \<and>
     file_to_num output_filename st2 = (Inr v, st2')"
proof -
  from square_effect [OF assms]
  obtain st1 bs1 where sq: "square input_filename output_filename st = (Inr (), st1)"
    and out1: "files st1 output_filename = Some bs1"
    and val1: "from_bytes bs1 = (from_bytes xs)\<^sup>2"
    by blast
  from square_naive_effect [OF assms]
  obtain st2 bs2 where nv: "square_naive input_filename output_filename st = (Inr (), st2)"
    and out2: "files st2 output_filename = Some bs2"
    and val2: "from_bytes bs2 = (from_bytes xs)\<^sup>2"
    by blast
  have "file_to_num output_filename st1
      = (Inr ((from_bytes xs)\<^sup>2), st1\<lparr>reads := reads st1 + length bs1\<rparr>)"
    using file_to_num_effect [OF out1] by (simp add: val1)
  moreover have "file_to_num output_filename st2
      = (Inr ((from_bytes xs)\<^sup>2), st2\<lparr>reads := reads st2 + length bs2\<rparr>)"
    using file_to_num_effect [OF out2] by (simp add: val2)
  ultimately show ?thesis
    using sq nv by blast
qed

theorem triangular_agrees_with_naive_witness:
  "''num.bin'' \<noteq> ''result.bin'' \<and>
   files \<lparr>files = [''num.bin'' \<mapsto> [255, 255]], reads = 0, writes = 0\<rparr> ''num.bin'' = Some [255, 255] \<and>
   (\<exists>v st1 st1' st2 st2'.
     square ''num.bin'' ''result.bin'' \<lparr>files = [''num.bin'' \<mapsto> [255, 255]], reads = 0, writes = 0\<rparr>
       = (Inr (), st1) \<and>
     file_to_num ''result.bin'' st1 = (Inr v, st1') \<and>
     square_naive ''num.bin'' ''result.bin'' \<lparr>files = [''num.bin'' \<mapsto> [255, 255]], reads = 0, writes = 0\<rparr>
       = (Inr (), st2) \<and>
     file_to_num ''result.bin'' st2 = (Inr v, st2'))"
  using triangular_agrees_with_naive [of "''num.bin''" "''result.bin''"
      "\<lparr>files = [''num.bin'' \<mapsto> [255, 255]], reads = 0, writes = 0\<rparr>" "[255, 255]"]
  by simp

text \<open>
  \<^bold>\<open>Claim C8.\<close> Encoding 0 writes a file of no blocks, and \<open>square\<close> on an
  operand of no blocks succeeds with a result of no blocks, which decodes to 0.
\<close>

theorem zero_handling:
  assumes "input_filename \<noteq> output_filename" "files st input_filename = Some []"
  shows "num_to_file 0 filename st0 = Some (Inr (), st0\<lparr>files := (files st0)(filename \<mapsto> [])\<rparr>) \<and>
     (\<exists>st1 st2.
        square input_filename output_filename st = (Inr (), st1) \<and>
        files st1 output_filename = Some [] \<and>
        file_to_num output_filename st1 = (Inr 0, st2))"
proof -
  have "num_to_file 0 filename st0 = Some (Inr (), st0\<lparr>files := (files st0)(filename \<mapsto> [])\<rparr>)"
    using num_to_file_effect [of 0 filename st0] by auto
  moreover from square_effect [OF assms]
  obtain st1 bs where sq: "square input_filename output_filename st = (Inr (), st1)"
    and out: "files st1 output_filename = Some bs" and len: "length bs \<le> 2 * length ([] :: byte list)"
    by blast
  from len have bs: "bs = []" by simp
  have "file_to_num output_filename st1 = (Inr 0, st1\<lparr>reads := reads st1 + length bs\<rparr>)"
    using file_to_num_effect [OF out] by (simp add: bs)
  with sq out bs have "\<exists>st1 st2.
        square input_filename output_filename st = (Inr (), st1) \<and>
        files st1 output_filename = Some [] \<and>
        file_to_num output_filename st1 = (Inr 0, st2)"
    by blast
  ultimately show ?thesis by simp
qed

theorem zero_handling_witness:
  "''num.bin'' \<noteq> ''result.bin'' \<and>
   files \<lparr>files = [''num.bin'' \<mapsto> []], reads = 0, writes = 0\<rparr> ''num.bin'' = Some [] \<and>
   num_to_file 0 ''num.bin'' \<lparr>files = Map.empty, reads = 0, writes = 0\<rparr>
     = Some (Inr (), \<lparr>files = [''num.bin'' \<mapsto> []], reads = 0, writes = 0\<rparr>) \<and>
   (\<exists>st1 st2.
      square ''num.bin'' ''result.bin'' \<lparr>files = [''num.bin'' \<mapsto> []], reads = 0, writes = 0\<rparr>
        = (Inr (), st1) \<and>
      files st1 ''result.bin'' = Some [] \<and>
      file_to_num ''result.bin'' st1 = (Inr 0, st2))"
  using zero_handling [of "''num.bin''" "''result.bin''"
      "\<lparr>files = [''num.bin'' \<mapsto> []], reads = 0, writes = 0\<rparr>" "''num.bin''"
      "\<lparr>files = Map.empty, reads = 0, writes = 0\<rparr>"]
  by simp

text \<open>
  \<^bold>\<open>Claim C9.\<close> For every operand, \<open>square\<close> succeeds and leaves the operand
  file with the content it had: the same length and the same block at every index.
\<close>

theorem operand_unchanged:
  assumes "input_filename \<noteq> output_filename" "files st input_filename = Some xs"
  shows "\<exists>st'. square input_filename output_filename st = (Inr (), st') \<and>
     files st' input_filename = Some xs"
  using square_effect [OF assms] assms by auto

theorem operand_unchanged_witness:
  "''num.bin'' \<noteq> ''result.bin'' \<and>
   files \<lparr>files = [''num.bin'' \<mapsto> [255, 255]], reads = 0, writes = 0\<rparr> ''num.bin'' = Some [255, 255] \<and>
   (\<exists>st'. square ''num.bin'' ''result.bin'' \<lparr>files = [''num.bin'' \<mapsto> [255, 255]], reads = 0, writes = 0\<rparr>
       = (Inr (), st') \<and>
     files st' ''num.bin'' = Some [255, 255])"
  using operand_unchanged [of "''num.bin''" "''result.bin''"
      "\<lparr>files = [''num.bin'' \<mapsto> [255, 255]], reads = 0, writes = 0\<rparr>" "[255, 255]"]
  by simp

text \<open>
  \<^bold>\<open>Claim C10.\<close> For every operand of \<open>length xs\<close> blocks, \<open>square\<close> succeeds
  with a result file of at most \<open>2 * length xs\<close> blocks. By \<open>write_block_extends\<close>
  and since no step of \<open>square\<close> shortens the result file, this is the same as: every
  write of \<open>square\<close> is at an index below \<open>2 * length xs\<close>.
\<close>

theorem result_length_bound:
  assumes "input_filename \<noteq> output_filename" "files st input_filename = Some xs"
  shows "\<exists>st' bs. square input_filename output_filename st = (Inr (), st') \<and>
     files st' output_filename = Some bs \<and> length bs \<le> 2 * length xs"
  using square_effect [OF assms] by blast

theorem result_length_bound_witness:
  "''num.bin'' \<noteq> ''result.bin'' \<and>
   files \<lparr>files = [''num.bin'' \<mapsto> [255, 255]], reads = 0, writes = 0\<rparr> ''num.bin'' = Some [255, 255] \<and>
   (\<exists>st' bs. square ''num.bin'' ''result.bin'' \<lparr>files = [''num.bin'' \<mapsto> [255, 255]], reads = 0, writes = 0\<rparr>
       = (Inr (), st') \<and>
     files st' ''result.bin'' = Some bs \<and> length bs \<le> 4)"
  using result_length_bound [of "''num.bin''" "''result.bin''"
      "\<lparr>files = [''num.bin'' \<mapsto> [255, 255]], reads = 0, writes = 0\<rparr>" "[255, 255]"]
  by simp

end
